theory Spec2Isabelle
  imports Complex_Main "HOL-Library.AList"
begin

section \<open>Numbers\<close>

text \<open>
  The program computes with JavaScript numbers, which are doubles. They are modelled as
  exact reals: each theorem states the expression that the code evaluates, and the
  rounding of that expression, infinities and NaN are outside the model. Where doubles
  decide what the program does, this is written into the model:
  \<^item> the two loops of \<open>lerpAngle\<close> never end once the difference is beyond \<open>2^62\<close> in
    magnitude, because the double \<open>diff - 360\<close> is then \<open>diff\<close> again; the loops return
    \<open>None\<close> there, and so does every function that calls them;
  \<^item> a division 0/0 in \<open>Action.getPoseAtTime\<close> gives NaN; it is an outcome of its own.
  An identity between such expressions (a subtree turning with its parent) holds of the
  program up to their rounding. The theorems on interpolation do not take the value
  \<open>a + (b - a) * t\<close> at \<open>t = 1\<close> to be \<open>b\<close>: it is in exact arithmetic, and is not in doubles.
\<close>

section \<open>Loops\<close>

text \<open>A \<open>for (const c of cs)\<close> loop whose body works on a state and may not return: \<open>None\<close>
  when a call of the body does not return.\<close>

primrec forEach :: "('a \<Rightarrow> 's \<Rightarrow> 's option) \<Rightarrow> 'a list \<Rightarrow> 's \<Rightarrow> 's option" where
  "forEach f [] s = Some s"
| "forEach f (c # cs) s = (case f c s of None \<Rightarrow> None | Some s' \<Rightarrow> forEach f cs s')"

section \<open>Transform (core/Transform.ts)\<close>

record transform =
  tr_x :: real
  tr_y :: real
  rotation :: real
  scaleX :: real
  scaleY :: real

text \<open>
  The two loops of \<open>lerpAngle\<close>: \<open>while (diff > 180) diff -= 360\<close> and
  \<open>while (diff < -180) diff += 360\<close>. On doubles the first moves \<open>diff\<close> as long as \<open>diff\<close> is
  at most \<open>2^62\<close> (the model takes the subtraction exact); above \<open>2^62\<close> the double
  \<open>diff - 360\<close> is \<open>diff\<close> and the loop never ends, which is \<open>None\<close>. The second is its
  mirror image.
\<close>

function wrap_above :: "real \<Rightarrow> real option" where
  "wrap_above diff =
     (if diff > 180
      then (if diff > 2 ^ 62 then None else wrap_above (diff - 360))
      else Some diff)"
  by pat_completeness auto
termination
proof (relation "measure (\<lambda>d. nat \<lceil>d\<rceil>)")
  fix diff :: real
  assume "180 < diff"
  then have "\<lceil>diff - 360\<rceil> < \<lceil>diff\<rceil>" "0 < \<lceil>diff\<rceil>"
    by linarith+
  then show "(diff - 360, diff) \<in> measure (\<lambda>d. nat \<lceil>d\<rceil>)"
    by simp
qed simp

function wrap_below :: "real \<Rightarrow> real option" where
  "wrap_below diff =
     (if diff < - 180
      then (if diff < - (2 ^ 62) then None else wrap_below (diff + 360))
      else Some diff)"
  by pat_completeness auto
termination
proof (relation "measure (\<lambda>d. nat \<lceil>- d\<rceil>)")
  fix diff :: real
  assume "diff < - 180"
  then have "\<lceil>- (diff + 360)\<rceil> < \<lceil>- diff\<rceil>" "0 < \<lceil>- diff\<rceil>"
    by linarith+
  then show "(diff + 360, diff) \<in> measure (\<lambda>d. nat \<lceil>- d\<rceil>)"
    by simp
qed simp

declare wrap_above.simps [simp del] wrap_below.simps [simp del]

text \<open>\<open>Transform.lerpAngle\<close> (private).\<close>

definition Transform_lerpAngle :: "real \<Rightarrow> real \<Rightarrow> real \<Rightarrow> real option" where
  "Transform_lerpAngle a b t =
     (case wrap_above (b - a) of
        None \<Rightarrow> None
      | Some diff \<Rightarrow>
         (case wrap_below diff of
            None \<Rightarrow> None
          | Some diff' \<Rightarrow> Some (a + diff' * t)))"

definition Transform_lerp :: "transform \<Rightarrow> transform \<Rightarrow> real \<Rightarrow> transform option" where
  "Transform_lerp this target t =
     (case Transform_lerpAngle (rotation this) (rotation target) t of
        None \<Rightarrow> None
      | Some r \<Rightarrow> Some \<lparr>
          tr_x = tr_x this + (tr_x target - tr_x this) * t,
          tr_y = tr_y this + (tr_y target - tr_y this) * t,
          rotation = r,
          scaleX = scaleX this + (scaleX target - scaleX this) * t,
          scaleY = scaleY this + (scaleY target - scaleY this) * t \<rparr>)"

section \<open>Pose (animation/Pose.ts)\<close>

text \<open>\<open>BoneTransformData\<close>: every channel is optional; \<open>None\<close> is \<open>undefined\<close>.\<close>

record boneTransformData =
  d_rotation :: "real option"
  d_x :: "real option"
  d_y :: "real option"
  d_scaleX :: "real option"
  d_scaleY :: "real option"

definition emptyData :: boneTransformData where
  "emptyData = \<lparr> d_rotation = None, d_x = None, d_y = None, d_scaleX = None, d_scaleY = None \<rparr>"

text \<open>A \<open>Map<string, BoneTransformData>\<close> is an association list in insertion order;
  \<open>map_of\<close> is \<open>Map.get\<close> and \<open>AList.update\<close> is \<open>Map.set\<close> (an existing key keeps its
  place, a new key goes to the end).\<close>

record pose =
  p_name :: string
  boneTransforms :: "(string \<times> boneTransformData) list"

definition lerpValue :: "real \<Rightarrow> real \<Rightarrow> real \<Rightarrow> real" where
  "lerpValue a b t = a + (b - a) * t"

text \<open>\<open>Pose.lerpAngle\<close> (private): \<open>None\<close> when one of its loops never ends.\<close>

definition lerpAngle :: "real \<Rightarrow> real \<Rightarrow> real \<Rightarrow> real option" where
  "lerpAngle a b t =
     (case wrap_above (b - a) of
        None \<Rightarrow> None
      | Some diff \<Rightarrow>
         (case wrap_below diff of
            None \<Rightarrow> None
          | Some diff' \<Rightarrow> Some (a + diff' * t)))"


text \<open>\<open>x ?? d\<close>\<close>

definition orElse :: "real option \<Rightarrow> real \<Rightarrow> real" where
  "orElse v d = (case v of None \<Rightarrow> d | Some w \<Rightarrow> w)"

text \<open>\<open>new Set([...])\<close>: the elements in order of first occurrence.\<close>

definition newSet :: "string list \<Rightarrow> string list" where
  "newSet ks = foldl (\<lambda>acc k. if k \<in> set acc then acc else acc @ [k]) [] ks"

text \<open>\<open>Object.keys(d).length > 0\<close> for a \<open>BoneTransformData\<close> whose assigned fields are numbers.\<close>

definition hasKeys :: "boneTransformData \<Rightarrow> bool" where
  "hasKeys d \<longleftrightarrow> d_rotation d \<noteq> None \<or> d_x d \<noteq> None \<or> d_y d \<noteq> None
     \<or> d_scaleX d \<noteq> None \<or> d_scaleY d \<noteq> None"

text \<open>The body of the loop of \<open>Pose.lerp\<close> that fills \<open>interpolated\<close>; \<open>None\<close> when the call
  of \<open>lerpAngle\<close> does not return.\<close>

definition interpolate :: "boneTransformData \<Rightarrow> boneTransformData \<Rightarrow> real \<Rightarrow> boneTransformData option" where
  "interpolate from to t =
     (case (if d_rotation from \<noteq> None \<or> d_rotation to \<noteq> None
            then map_option Some (lerpAngle (orElse (d_rotation from) 0) (orElse (d_rotation to) 0) t)
            else Some None) of
        None \<Rightarrow> None
      | Some rot \<Rightarrow> Some \<lparr>
          d_rotation = rot,
          d_x = (if d_x from \<noteq> None \<or> d_x to \<noteq> None
             then Some (lerpValue (orElse (d_x from) 0) (orElse (d_x to) 0) t) else None),
          d_y = (if d_y from \<noteq> None \<or> d_y to \<noteq> None
             then Some (lerpValue (orElse (d_y from) 0) (orElse (d_y to) 0) t) else None),
          d_scaleX = (if d_scaleX from \<noteq> None \<or> d_scaleX to \<noteq> None
             then Some (lerpValue (orElse (d_scaleX from) 1) (orElse (d_scaleX to) 1) t) else None),
          d_scaleY = (if d_scaleY from \<noteq> None \<or> d_scaleY to \<noteq> None
             then Some (lerpValue (orElse (d_scaleY from) 1) (orElse (d_scaleY to) 1) t) else None) \<rparr>)"

definition getBoneTransform :: "pose \<Rightarrow> string \<Rightarrow> boneTransformData option" where
  "getBoneTransform this boneName = map_of (boneTransforms this) boneName"

text \<open>\<open>pose.boneTransforms.get(boneName) ?? {}\<close>\<close>

definition getOrEmpty :: "pose \<Rightarrow> string \<Rightarrow> boneTransformData" where
  "getOrEmpty this boneName =
     (case map_of (boneTransforms this) boneName of None \<Rightarrow> emptyData | Some d \<Rightarrow> d)"

definition lerp_step ::
  "pose \<Rightarrow> pose \<Rightarrow> real \<Rightarrow> string \<Rightarrow> (string \<times> boneTransformData) list
    \<Rightarrow> (string \<times> boneTransformData) list option" where
  "lerp_step this target t boneName acc =
     (let from = getOrEmpty this boneName;
          to = getOrEmpty target boneName
      in case interpolate from to t of
           None \<Rightarrow> None
         | Some interpolated \<Rightarrow>
             Some (if hasKeys interpolated then AList.update boneName interpolated acc else acc))"

text \<open>\<open>Pose.lerp\<close>; \<open>None\<close> when it does not return. The result's name ends in
  \<open>t.toFixed(2)\<close>; the formatting of the number is the parameter \<open>toFixed2\<close>.\<close>

definition lerp :: "(real \<Rightarrow> string) \<Rightarrow> pose \<Rightarrow> pose \<Rightarrow> real \<Rightarrow> pose option" where
  "lerp toFixed2 this target t =
     (let allBones = newSet (map fst (boneTransforms this) @ map fst (boneTransforms target))
      in map_option
           (\<lambda>bts. \<lparr> p_name = p_name this @ ''_to_'' @ p_name target @ ''_'' @ toFixed2 t,
                    boneTransforms = bts \<rparr>)
           (forEach (lerp_step this target t) allBones []))"

text \<open>The body of the loop of \<open>Pose.difference\<close> that fills \<open>diff\<close>: only the
  channels rotation, x and y are ever assigned.\<close>

definition diffData :: "boneTransformData \<Rightarrow> boneTransformData \<Rightarrow> boneTransformData" where
  "diffData fromTransform toTransform = \<lparr>
     d_rotation = (case d_rotation toTransform of None \<Rightarrow> None
        | Some r \<Rightarrow> Some (r - orElse (d_rotation fromTransform) 0)),
     d_x = (case d_x toTransform of None \<Rightarrow> None
        | Some v \<Rightarrow> Some (v - orElse (d_x fromTransform) 0)),
     d_y = (case d_y toTransform of None \<Rightarrow> None
        | Some v \<Rightarrow> Some (v - orElse (d_y fromTransform) 0)),
     d_scaleX = None, d_scaleY = None \<rparr>"

definition difference_step ::
  "pose \<Rightarrow> (string \<times> boneTransformData) list \<Rightarrow> string \<times> boneTransformData
    \<Rightarrow> (string \<times> boneTransformData) list" where
  "difference_step from acc e =
     (let boneName = fst e; toTransform = snd e;
          fromTransform = getOrEmpty from boneName;
          diff = diffData fromTransform toTransform
      in AList.update boneName diff acc)"

definition difference :: "pose \<Rightarrow> pose \<Rightarrow> pose" where
  "difference from to =
     \<lparr> p_name = ''diff_'' @ p_name from @ ''_'' @ p_name to,
       boneTransforms = foldl (difference_step from) [] (boneTransforms to) \<rparr>"

text \<open>A pose whose rotations are at most \<open>2^61\<close> in magnitude: between two such poses every
  rotation difference is within the range in which the loops of \<open>lerpAngle\<close> end.\<close>

definition rotationsBounded :: "pose \<Rightarrow> bool" where
  "rotationsBounded p \<longleftrightarrow>
     (\<forall>e\<in>set (boneTransforms p). \<bar>orElse (d_rotation (snd e)) 0\<bar> \<le> 2 ^ 61)"

text \<open>A pose all of whose channel values are at most \<open>2^61\<close> in magnitude: no difference of
  two such values overflows.\<close>

definition channelsBounded :: "pose \<Rightarrow> bool" where
  "channelsBounded p \<longleftrightarrow>
     (\<forall>e\<in>set (boneTransforms p).
        \<bar>orElse (d_rotation (snd e)) 0\<bar> \<le> 2 ^ 61 \<and> \<bar>orElse (d_x (snd e)) 0\<bar> \<le> 2 ^ 61 \<and>
        \<bar>orElse (d_y (snd e)) 0\<bar> \<le> 2 ^ 61 \<and> \<bar>orElse (d_scaleX (snd e)) 0\<bar> \<le> 2 ^ 61 \<and>
        \<bar>orElse (d_scaleY (snd e)) 0\<bar> \<le> 2 ^ 61)"

section \<open>Bone and Skeleton (core/Bone.ts, core/Skeleton.ts)\<close>

text \<open>
  Bones are objects that point at each other (\<open>parent\<close>, \<open>children\<close>) and are mutated in
  place. The model keeps them in a store indexed by bone name, the key under which
  \<open>Skeleton.bones\<close> holds them; \<open>parent\<close> and \<open>children\<close> hold names. The joint references
  play no part in the transform computation and are left out.
\<close>

record bone =
  bone_name :: string
  bone_length :: real
  parent :: "string option"
  children :: "string list"
  bindTransform :: transform
  localTransform :: transform
  worldX :: real
  worldY :: real
  worldRotation :: real

type_synonym bone_store = "string \<rightharpoonup> bone"

record skeleton =
  bones :: bone_store
  rootBones :: "string list"

text \<open>The assignments of \<open>Bone.updateWorldTransform\<close> to \<open>worldX\<close>, \<open>worldY\<close> and
  \<open>worldRotation\<close>, from the parent object if there is one.\<close>

definition setWorld :: "bone option \<Rightarrow> bone \<Rightarrow> bone" where
  "setWorld par this = (case par of
     Some p \<Rightarrow>
       (let parentRad = (worldRotation p * pi) / 180;
            cs = cos parentRad;
            sn = sin parentRad
        in this\<lparr> worldX := worldX p + (tr_x (localTransform this) * cs - tr_y (localTransform this) * sn),
                 worldY := worldY p + (tr_x (localTransform this) * sn + tr_y (localTransform this) * cs),
                 worldRotation := worldRotation p + rotation (localTransform this) \<rparr>)
   | None \<Rightarrow>
       this\<lparr> worldX := tr_x (localTransform this),
             worldY := tr_y (localTransform this),
             worldRotation := rotation (localTransform this) \<rparr>)"

text \<open>
  \<open>Bone.updateWorldTransform\<close>. The recursion follows the \<open>children\<close> references and
  need not end (a bone reachable from its own children); the first argument bounds the
  depth of the call stack, and \<open>None\<close> is a call that does not return within it. A name
  that is not in the store (impossible for an object reference) also gives \<open>None\<close>.
\<close>

fun updateWorldTransform :: "nat \<Rightarrow> string \<Rightarrow> bone_store \<Rightarrow> bone_store option" where
  "updateWorldTransform 0 this s = None"
| "updateWorldTransform (Suc depth) this s =
     (case s this of
        None \<Rightarrow> None
      | Some b \<Rightarrow>
         (case parent b of
            None \<Rightarrow>
              forEach (\<lambda>child s'. updateWorldTransform depth child s') (children b)
                (s(this \<mapsto> setWorld None b))
          | Some p \<Rightarrow>
             (case s p of
                None \<Rightarrow> None
              | Some pb \<Rightarrow>
                  forEach (\<lambda>child s'. updateWorldTransform depth child s') (children b)
                    (s(this \<mapsto> setWorld (Some pb) b)))))"

text \<open>\<open>Skeleton.updateTransforms\<close>.\<close>

definition updateTransforms :: "nat \<Rightarrow> skeleton \<Rightarrow> skeleton option" where
  "updateTransforms depth sk =
     map_option (\<lambda>s. sk\<lparr> bones := s \<rparr>)
       (forEach (\<lambda>root s. updateWorldTransform depth root s) (rootBones sk) (bones sk))"

text \<open>\<open>Bone.setRotation\<close> and \<open>Bone.getRotation\<close>.\<close>

definition setRotation :: "real \<Rightarrow> bone \<Rightarrow> bone" where
  "setRotation angle this =
     this\<lparr> localTransform := (localTransform this)\<lparr> rotation := rotation (bindTransform this) + angle \<rparr> \<rparr>"

definition getRotation :: "bone \<Rightarrow> real" where
  "getRotation this = rotation (localTransform this) - rotation (bindTransform this)"

text \<open>\<open>Bone.getEndPoint\<close>.\<close>

definition getEndPoint :: "bone \<Rightarrow> real \<times> real" where
  "getEndPoint this = (let rad = (worldRotation this * pi) / 180
     in (worldX this + cos rad * bone_length this, worldY this + sin rad * bone_length this))"

text \<open>The body of the loop of \<open>Pose.applyTo\<close> for one entry of the pose, on a bone that
  \<open>skeleton.getBone\<close> found.\<close>

definition applyData :: "boneTransformData \<Rightarrow> bone \<Rightarrow> bone" where
  "applyData tf bone0 =
     (let bone1 = (case d_rotation tf of None \<Rightarrow> bone0 | Some r \<Rightarrow> setRotation r bone0);
          bone2 = (case d_x tf of None \<Rightarrow> bone1
             | Some v \<Rightarrow> bone1\<lparr> localTransform := (localTransform bone1)\<lparr> tr_x := tr_x (bindTransform bone1) + v \<rparr> \<rparr>);
          bone3 = (case d_y tf of None \<Rightarrow> bone2
             | Some v \<Rightarrow> bone2\<lparr> localTransform := (localTransform bone2)\<lparr> tr_y := tr_y (bindTransform bone2) + v \<rparr> \<rparr>);
          bone4 = (case d_scaleX tf of None \<Rightarrow> bone3
             | Some v \<Rightarrow> bone3\<lparr> localTransform := (localTransform bone3)\<lparr> scaleX := v \<rparr> \<rparr>);
          bone5 = (case d_scaleY tf of None \<Rightarrow> bone4
             | Some v \<Rightarrow> bone4\<lparr> localTransform := (localTransform bone4)\<lparr> scaleY := v \<rparr> \<rparr>)
      in bone5)"

definition applyEntry :: "bone_store \<Rightarrow> string \<times> boneTransformData \<Rightarrow> bone_store" where
  "applyEntry s e =
     (let boneName = fst e; tf = snd e
      in case s boneName of
           None \<Rightarrow> s
         | Some bone0 \<Rightarrow> s(boneName \<mapsto> applyData tf bone0))"

text \<open>\<open>Pose.applyTo\<close>: the loop over the pose's entries, then
  \<open>skeleton.updateTransforms()\<close>.\<close>

definition applyTo :: "nat \<Rightarrow> pose \<Rightarrow> skeleton \<Rightarrow> skeleton option" where
  "applyTo depth this sk =
     updateTransforms depth (sk\<lparr> bones := foldl applyEntry (bones sk) (boneTransforms this) \<rparr>)"

text \<open>
  \<open>BoneData\<close>, with the optional \<open>parentName\<close>; the transform is the one that
  \<open>new Transform(data.bindTransform)\<close> builds. The constructor of \<open>Bone\<close> copies the data and
  leaves the bone without parent, without children and with a zero world transform.
\<close>

record boneData =
  bd_name :: string
  bd_length :: real
  bd_parentName :: "string option"
  bd_bindTransform :: transform

definition newBone :: "boneData \<Rightarrow> bone" where
  "newBone d = \<lparr> bone_name = bd_name d, bone_length = bd_length d, parent = None, children = [],
      bindTransform = bd_bindTransform d, localTransform = bd_bindTransform d,
      worldX = 0, worldY = 0, worldRotation = 0 \<rparr>"

text \<open>\<open>Bone.addChild\<close>, called on the bone \<open>this\<close> with the bone \<open>child\<close>.\<close>

definition addChild :: "string \<Rightarrow> string \<Rightarrow> bone_store \<Rightarrow> bone_store" where
  "addChild this child s =
     (case s child of
        None \<Rightarrow> s
      | Some cb \<Rightarrow>
          (let s1 = s(child \<mapsto> cb\<lparr> parent := Some this \<rparr>)
           in case s1 this of
                None \<Rightarrow> s1
              | Some pb \<Rightarrow> s1(this \<mapsto> pb\<lparr> children := children pb @ [child] \<rparr>)))"

text \<open>
  The body of the loop of \<open>loadFromData\<close> that builds the hierarchy, for the bone made from
  one entry of the data. The test \<open>if (bone.parentName)\<close> fails on \<open>null\<close> and on the empty
  string. A bone whose \<open>parentName\<close> names no bone takes neither branch of the inner test:
  it gets no parent and is not pushed to \<open>rootBones\<close>.
\<close>

definition linkBone :: "skeleton \<Rightarrow> string \<times> boneData \<Rightarrow> skeleton" where
  "linkBone sk e =
     (case bd_parentName (snd e) of
        None \<Rightarrow> sk\<lparr> rootBones := rootBones sk @ [fst e] \<rparr>
      | Some parentName \<Rightarrow>
          if parentName = [] then sk\<lparr> rootBones := rootBones sk @ [fst e] \<rparr>
          else (case bones sk parentName of
                  None \<Rightarrow> sk
                | Some pb \<Rightarrow> sk\<lparr> bones := addChild parentName (fst e) (bones sk) \<rparr>))"

text \<open>
  \<open>Skeleton.loadFromData\<close> on the bones of the data: the first loop fills the map
  \<open>bones\<close> (\<open>AList.update\<close> is \<open>Map.set\<close>: a name that occurs again replaces the bone and
  keeps its place), the second loop runs over the values of that map in its order.
\<close>

definition loadFromData :: "boneData list \<Rightarrow> skeleton" where
  "loadFromData ds =
     (let created = foldl (\<lambda>m d. AList.update (bd_name d) d m) [] ds
      in foldl linkBone
           \<lparr> bones = map_of (map (\<lambda>e. (fst e, newBone (snd e))) created), rootBones = [] \<rparr>
           created)"

text \<open>
  What \<open>Skeleton.loadFromData\<close> and \<open>Bone.addChild\<close> establish, and no method of
  \<open>Skeleton\<close> changes: the skeleton holds finitely many bones; every entry of a bone's
  \<open>children\<close> is a bone of the skeleton whose \<open>parent\<close> is that bone; a bone with a
  \<open>parent\<close> is among that parent's \<open>children\<close>; every root bone is a bone of the skeleton
  with no parent. Bones that are in no \<open>children\<close> list and not in \<open>rootBones\<close> (a
  \<open>parentName\<close> that names no bone) are allowed, and so are cycles among bones that
  name each other as parent.
\<close>

definition wf_bones :: "bone_store \<Rightarrow> bool" where
  "wf_bones s \<longleftrightarrow>
     finite (dom s) \<and>
     (\<forall>n b c. s n = Some b \<and> c \<in> set (children b) \<longrightarrow> (\<exists>cb. s c = Some cb \<and> parent cb = Some n)) \<and>
     (\<forall>n b p. s n = Some b \<and> parent b = Some p \<longrightarrow> (\<exists>pb. s p = Some pb \<and> n \<in> set (children pb)))"

definition wf_skeleton :: "skeleton \<Rightarrow> bool" where
  "wf_skeleton sk \<longleftrightarrow>
     wf_bones (bones sk) \<and>
     (\<forall>r \<in> set (rootBones sk). \<exists>b. bones sk r = Some b \<and> parent b = None)"

text \<open>\<open>child_rel s\<close>: the pairs (bone, one of its children). A descendant of \<open>p\<close> is a bone
  reached from \<open>p\<close> in one or more steps; \<open>subtree s p\<close> adds \<open>p\<close> itself.\<close>

definition child_rel :: "bone_store \<Rightarrow> (string \<times> string) set" where
  "child_rel s = {(n, c). \<exists>b. s n = Some b \<and> c \<in> set (children b)}"

definition subtree :: "bone_store \<Rightarrow> string \<Rightarrow> string set" where
  "subtree s p = {m. (p, m) \<in> (child_rel s)\<^sup>*}"

definition descendants :: "bone_store \<Rightarrow> string \<Rightarrow> string set" where
  "descendants s p = {m. (p, m) \<in> (child_rel s)\<^sup>+}"

text \<open>The bones that \<open>Skeleton.updateTransforms\<close> reaches.\<close>

definition reachable :: "skeleton \<Rightarrow> string set" where
  "reachable sk = (\<Union>r \<in> set (rootBones sk). subtree (bones sk) r)"

text \<open>\<open>level s n k\<close>: following \<open>parent\<close> from \<open>n\<close> ends after \<open>k\<close> steps at a bone with no
  parent.\<close>

inductive level :: "bone_store \<Rightarrow> string \<Rightarrow> nat \<Rightarrow> bool" where
  level_root: "s n = Some b \<Longrightarrow> parent b = None \<Longrightarrow> level s n 0"
| level_child: "s n = Some b \<Longrightarrow> parent b = Some p \<Longrightarrow> level s p k \<Longrightarrow> level s n (Suc k)"

text \<open>\<open>world_ok s n\<close>: the world transform stored for bone \<open>n\<close> is the one that the
  contract of \<open>updateWorldTransform\<close> derives from the world transform stored for its
  parent (or from its own local transform, for a bone with no parent).\<close>

definition world_ok :: "bone_store \<Rightarrow> string \<Rightarrow> bool" where
  "world_ok s n \<longleftrightarrow> (case s n of
      None \<Rightarrow> False
    | Some b \<Rightarrow> (case parent b of
        None \<Rightarrow> worldX b = tr_x (localTransform b) \<and> worldY b = tr_y (localTransform b)
                 \<and> worldRotation b = rotation (localTransform b)
      | Some p \<Rightarrow> (case s p of
          None \<Rightarrow> False
        | Some pb \<Rightarrow>
            worldRotation b = worldRotation pb + rotation (localTransform b) \<and>
            worldX b = worldX pb + tr_x (localTransform b) * cos (worldRotation pb * pi / 180)
                                 - tr_y (localTransform b) * sin (worldRotation pb * pi / 180) \<and>
            worldY b = worldY pb + tr_x (localTransform b) * sin (worldRotation pb * pi / 180)
                                 + tr_y (localTransform b) * cos (worldRotation pb * pi / 180))))"

text \<open>\<open>frame s\<close>: the store with every world transform erased. Two stores with the same
  frame hold the same bones with the same hierarchy, bind and local transforms.\<close>

definition unworld :: "bone \<Rightarrow> bone" where
  "unworld b = b\<lparr> worldX := 0, worldY := 0, worldRotation := 0 \<rparr>"

definition frame :: "bone_store \<Rightarrow> bone_store" where
  "frame s = (\<lambda>n. map_option unworld (s n))"

text \<open>\<open>hier s\<close>: the hierarchy alone, every bone reduced to its \<open>parent\<close> and \<open>children\<close>.\<close>

definition hier :: "bone_store \<Rightarrow> (string \<rightharpoonup> string option \<times> string list)" where
  "hier s = (\<lambda>n. map_option (\<lambda>b. (parent b, children b)) (s n))"

text \<open>Adding \<open>theta\<close> to the rotation of the local transform of bone \<open>p\<close>
  (\<open>bone.localTransform.rotation += theta\<close>).\<close>

definition addLocalRotation :: "real \<Rightarrow> bone \<Rightarrow> bone" where
  "addLocalRotation theta b =
     b\<lparr> localTransform := (localTransform b)\<lparr> rotation := rotation (localTransform b) + theta \<rparr> \<rparr>"

definition rotateBone :: "string \<Rightarrow> real \<Rightarrow> skeleton \<Rightarrow> skeleton" where
  "rotateBone p theta sk =
     (case bones sk p of
        None \<Rightarrow> sk
      | Some b \<Rightarrow> sk\<lparr> bones := (bones sk)(p \<mapsto> addLocalRotation theta b) \<rparr>)"

section \<open>Action (choreography/Action.ts)\<close>

record keyframe =
  k_time :: real
  k_pose :: string
  easing :: "string option"

record action =
  a_name :: string
  duration :: real
  keyframes :: "keyframe list"
  category :: string

text \<open>\<open>PoseLibrary.get\<close> and \<open>ActionLibrary.get\<close> are \<open>Map.get\<close> on the library's map.\<close>

type_synonym poseLibrary = "string \<rightharpoonup> pose"
type_synonym actionLibrary = "string \<rightharpoonup> action"

text \<open>\<open>xs[i]\<close> on an array: \<open>undefined\<close> (\<open>None\<close>) outside the array.\<close>

definition elemAt :: "'a list \<Rightarrow> int \<Rightarrow> 'a option" where
  "elemAt xs i = (if 0 \<le> i \<and> i < int (length xs) then Some (xs ! nat i) else None)"

text \<open>Reading a property of \<open>undefined\<close> throws a \<open>TypeError\<close>.\<close>

datatype error = TypeError

text \<open>
  What \<open>getPoseAtTime\<close> returns: \<open>null\<close>, a pose, or the pose \<open>fromPose.lerp(toPose, NaN)\<close>.
  The last arises when the two bracketing keyframes have the same time: the local time
  is then 0/0, which is NaN in JavaScript, and every channel of the interpolated pose is
  NaN. Real numbers have no NaN, so this outcome is kept apart. The call of \<open>lerp\<close> is
  still made, and whether it returns depends on the rotations of the two poses and not
  on the interpolation factor.
\<close>

datatype preview = Null | Posed pose | LerpNaN pose pose

text \<open>The \<open>for\<close> loop of \<open>getPoseAtTime\<close>, from index \<open>i\<close> on: the first pair of
  consecutive keyframes whose times bracket \<open>t\<close>.\<close>

function findSegment :: "real \<Rightarrow> keyframe list \<Rightarrow> nat \<Rightarrow> error + (keyframe \<times> keyframe) option" where
  "findSegment t kfs i =
     (if int i < int (length kfs) - 1
      then (case elemAt kfs (int i) of
              None \<Rightarrow> Inl TypeError
            | Some kf \<Rightarrow>
               (case elemAt kfs (int i + 1) of
                  None \<Rightarrow> Inl TypeError
                | Some kf' \<Rightarrow>
                    if t \<ge> k_time kf \<and> t \<le> k_time kf' then Inr (Some (kf, kf'))
                    else findSegment t kfs (i + 1)))
      else Inr None)"
  by pat_completeness auto
termination
  by (relation "measure (\<lambda>(t, kfs, i). length kfs - i)") auto

declare findSegment.simps [simp del]

text \<open>\<open>Action.getPoseAtTime\<close>: \<open>None\<close> when it does not return, \<open>Some (Inl TypeError)\<close> when it
  throws. The first parameter formats the number in the name of an interpolated pose.\<close>

definition getPoseAtTime ::
  "(real \<Rightarrow> string) \<Rightarrow> real \<Rightarrow> poseLibrary \<Rightarrow> action \<Rightarrow> (error + preview) option" where
  "getPoseAtTime toFixed2 t poseLibrary this =
     (case findSegment t (keyframes this) 0 of
        Inl e \<Rightarrow> Some (Inl e)
      | Inr None \<Rightarrow>
          (case (if t \<le> 0 then elemAt (keyframes this) 0
                 else elemAt (keyframes this) (int (length (keyframes this)) - 1)) of
             None \<Rightarrow> Some (Inl TypeError)
           | Some kf \<Rightarrow>
               Some (Inr (case poseLibrary (k_pose kf) of None \<Rightarrow> Null | Some p \<Rightarrow> Posed p)))
      | Inr (Some (fromKf, toKf)) \<Rightarrow>
          (case poseLibrary (k_pose fromKf) of
             None \<Rightarrow> Some (Inr Null)
           | Some fromPose \<Rightarrow>
              (case poseLibrary (k_pose toKf) of
                 None \<Rightarrow> Some (Inr Null)
               | Some toPose \<Rightarrow>
                   if k_time toKf - k_time fromKf = 0
                   then map_option (\<lambda>p. Inr (LerpNaN fromPose toPose))
                          (lerp toFixed2 fromPose toPose 0)
                   else map_option (\<lambda>p. Inr (Posed p))
                          (lerp toFixed2 fromPose toPose
                             ((t - k_time fromKf) / (k_time toKf - k_time fromKf))))))"

text \<open>A pose library in which every pose has rotations of magnitude at most \<open>2^61\<close>.\<close>

definition libraryBounded :: "poseLibrary \<Rightarrow> bool" where
  "libraryBounded lib \<longleftrightarrow> (\<forall>p\<in>ran lib. rotationsBounded p)"

section \<open>Beat and Sequence (choreography/Beat.ts, choreography/Sequence.ts)\<close>

record beat =
  b_time :: real
  actor :: string
  b_action :: string
  target :: "string option"

text \<open>The state of a \<open>Sequence\<close> that its beat list and duration depend on. The figures,
  the master timeline and the callbacks are left out.\<close>

record sequence =
  s_name :: string
  beats :: "beat list"
  actionLibrary :: actionLibrary

definition newSequence :: "string \<Rightarrow> actionLibrary \<Rightarrow> sequence" where
  "newSequence nm lib = \<lparr> s_name = nm, beats = [], actionLibrary = lib \<rparr>"

text \<open>
  \<open>Sequence.addBeat\<close>: \<open>push\<close>, then \<open>this.beats.sort((a, b) => a.time - b.time)\<close>.
  \<open>Array.prototype.sort\<close> belongs to the language: since ECMAScript 2019 it is a stable
  sort, and with this comparator on real times it orders by \<open>time\<close> ascending. It is
  modelled by the stable insertion sort \<open>sort_key\<close>.
\<close>

definition addBeat :: "sequence \<Rightarrow> beat \<Rightarrow> sequence" where
  "addBeat this b = this\<lparr> beats := sort_key b_time (beats this @ [b]) \<rparr>"

text \<open>\<open>Sequence.getDuration\<close>.\<close>

definition getDuration :: "sequence \<Rightarrow> real" where
  "getDuration this =
     (if length (beats this) = 0 then 0
      else foldl (\<lambda>maxEnd b.
             (case actionLibrary this (b_action b) of
                None \<Rightarrow> maxEnd
              | Some a \<Rightarrow> (let end' = b_time b + duration a in max maxEnd end')))
           0 (beats this))"

text \<open>What a beat contributes to the duration according to the specification: its
  time plus the duration of its action, or 0 when the action name does not resolve.\<close>

definition beatEnd :: "sequence \<Rightarrow> beat \<Rightarrow> real" where
  "beatEnd this b = (case actionLibrary this (b_action b) of None \<Rightarrow> 0 | Some a \<Rightarrow> b_time b + duration a)"

section \<open>Sample data\<close>

text \<open>Concrete poses, skeletons, actions and sequences on which the theorems below are
  instantiated.\<close>

definition label0 :: "real \<Rightarrow> string" where "label0 t = ''0.00''"

definition poseA :: pose where
  "poseA = \<lparr> p_name = ''a'', boneTransforms =
      [(''arm'', \<lparr> d_rotation = Some 0, d_x = Some 3, d_y = None, d_scaleX = None, d_scaleY = None \<rparr>)] \<rparr>"

definition poseB :: pose where
  "poseB = \<lparr> p_name = ''b'', boneTransforms =
      [(''arm'', \<lparr> d_rotation = Some 270, d_x = None, d_y = None, d_scaleX = Some 2, d_scaleY = None \<rparr>),
       (''leg'', \<lparr> d_rotation = None, d_x = None, d_y = Some 5, d_scaleX = None, d_scaleY = None \<rparr>)] \<rparr>"


definition libAB :: poseLibrary where
  "libAB = [''a'' \<mapsto> poseA, ''b'' \<mapsto> poseB]"

definition lateAction :: action where
  "lateAction = \<lparr> a_name = ''late'', duration = 1,
      keyframes = [\<lparr> k_time = 2/10, k_pose = ''a'', easing = None \<rparr>,
                   \<lparr> k_time = 1, k_pose = ''b'', easing = None \<rparr>],
      category = ''misc'' \<rparr>"

definition oneKeyAction :: action where
  "oneKeyAction = \<lparr> a_name = ''hold'', duration = 1,
      keyframes = [\<lparr> k_time = 0, k_pose = ''a'', easing = None \<rparr>],
      category = ''misc'' \<rparr>"

definition noKeyAction :: action where
  "noKeyAction = \<lparr> a_name = ''none'', duration = 1, keyframes = [], category = ''misc'' \<rparr>"

definition jab :: action where
  "jab = \<lparr> a_name = ''jab'', duration = 3/10,
      keyframes = [\<lparr> k_time = 0, k_pose = ''a'', easing = None \<rparr>,
                   \<lparr> k_time = 1, k_pose = ''b'', easing = None \<rparr>],
      category = ''attack'' \<rparr>"

definition libJab :: actionLibrary where
  "libJab = [''jab'' \<mapsto> jab]"

definition earlyBeat :: beat where
  "earlyBeat = \<lparr> b_time = - 2, actor = ''A'', b_action = ''jab'', target = None \<rparr>"

definition earlySequence :: sequence where
  "earlySequence = \<lparr> s_name = ''early'', beats = [earlyBeat], actionLibrary = libJab \<rparr>"

definition beat1 :: beat where
  "beat1 = \<lparr> b_time = 1, actor = ''A'', b_action = ''jab'', target = None \<rparr>"

definition beat2 :: beat where
  "beat2 = \<lparr> b_time = 0, actor = ''B'', b_action = ''wave'', target = None \<rparr>"

definition fightSequence :: sequence where
  "fightSequence = \<lparr> s_name = ''fight'', beats = [beat2, beat1], actionLibrary = libJab \<rparr>"

text \<open>A skeleton as \<open>loadFromData\<close> builds it from the bones \<open>spine\<close> (no parent), \<open>arm\<close>
  (parent \<open>spine\<close>), \<open>hand\<close> (parent \<open>arm\<close>), \<open>limb\<close> (parent name \<open>ghost\<close>, which names no
  bone) and \<open>tip\<close> (parent \<open>limb\<close>): \<open>limb\<close> is left without parent and is not a root.\<close>

definition spineBone :: bone where
  "spineBone = \<lparr> bone_name = ''spine'', bone_length = 50, parent = None, children = [''arm''],
      bindTransform = \<lparr> tr_x = 10, tr_y = 20, rotation = 90, scaleX = 1, scaleY = 1 \<rparr>,
      localTransform = \<lparr> tr_x = 10, tr_y = 20, rotation = 90, scaleX = 1, scaleY = 1 \<rparr>,
      worldX = 0, worldY = 0, worldRotation = 0 \<rparr>"

definition armBone :: bone where
  "armBone = \<lparr> bone_name = ''arm'', bone_length = 30, parent = Some ''spine'', children = [''hand''],
      bindTransform = \<lparr> tr_x = 5, tr_y = 0, rotation = 30, scaleX = 1, scaleY = 1 \<rparr>,
      localTransform = \<lparr> tr_x = 5, tr_y = 0, rotation = 30, scaleX = 1, scaleY = 1 \<rparr>,
      worldX = 0, worldY = 0, worldRotation = 0 \<rparr>"

definition handBone :: bone where
  "handBone = \<lparr> bone_name = ''hand'', bone_length = 10, parent = Some ''arm'', children = [],
      bindTransform = \<lparr> tr_x = 2, tr_y = 1, rotation = 0, scaleX = 1, scaleY = 1 \<rparr>,
      localTransform = \<lparr> tr_x = 2, tr_y = 1, rotation = 0, scaleX = 1, scaleY = 1 \<rparr>,
      worldX = 0, worldY = 0, worldRotation = 0 \<rparr>"

definition limbBone :: bone where
  "limbBone = \<lparr> bone_name = ''limb'', bone_length = 20, parent = None, children = [''tip''],
      bindTransform = \<lparr> tr_x = 1, tr_y = 1, rotation = 0, scaleX = 1, scaleY = 1 \<rparr>,
      localTransform = \<lparr> tr_x = 1, tr_y = 1, rotation = 0, scaleX = 1, scaleY = 1 \<rparr>,
      worldX = 0, worldY = 0, worldRotation = 0 \<rparr>"

definition tipBone :: bone where
  "tipBone = \<lparr> bone_name = ''tip'', bone_length = 5, parent = Some ''limb'', children = [],
      bindTransform = \<lparr> tr_x = 4, tr_y = 0, rotation = 0, scaleX = 1, scaleY = 1 \<rparr>,
      localTransform = \<lparr> tr_x = 4, tr_y = 0, rotation = 0, scaleX = 1, scaleY = 1 \<rparr>,
      worldX = 0, worldY = 0, worldRotation = 0 \<rparr>"

definition sampleBones :: bone_store where
  "sampleBones = [''spine'' \<mapsto> spineBone, ''arm'' \<mapsto> armBone, ''hand'' \<mapsto> handBone,
      ''limb'' \<mapsto> limbBone, ''tip'' \<mapsto> tipBone]"

definition sampleSkeleton :: skeleton where
  "sampleSkeleton = \<lparr> bones = sampleBones, rootBones = [''spine''] \<rparr>"

text \<open>The data from which \<open>loadFromData\<close> builds the sample skeleton.\<close>

definition sampleData :: "boneData list" where
  "sampleData =
     [\<lparr> bd_name = ''spine'', bd_length = 50, bd_parentName = None,
        bd_bindTransform = \<lparr> tr_x = 10, tr_y = 20, rotation = 90, scaleX = 1, scaleY = 1 \<rparr> \<rparr>,
      \<lparr> bd_name = ''arm'', bd_length = 30, bd_parentName = Some ''spine'',
        bd_bindTransform = \<lparr> tr_x = 5, tr_y = 0, rotation = 30, scaleX = 1, scaleY = 1 \<rparr> \<rparr>,
      \<lparr> bd_name = ''hand'', bd_length = 10, bd_parentName = Some ''arm'',
        bd_bindTransform = \<lparr> tr_x = 2, tr_y = 1, rotation = 0, scaleX = 1, scaleY = 1 \<rparr> \<rparr>,
      \<lparr> bd_name = ''limb'', bd_length = 20, bd_parentName = Some ''ghost'',
        bd_bindTransform = \<lparr> tr_x = 1, tr_y = 1, rotation = 0, scaleX = 1, scaleY = 1 \<rparr> \<rparr>,
      \<lparr> bd_name = ''tip'', bd_length = 5, bd_parentName = Some ''limb'',
        bd_bindTransform = \<lparr> tr_x = 4, tr_y = 0, rotation = 0, scaleX = 1, scaleY = 1 \<rparr> \<rparr>]"

text \<open>Two poses whose rotations of \<open>arm\<close> are \<open>2^63\<close> apart, and an action between them.\<close>

definition poseZero :: pose where
  "poseZero = \<lparr> p_name = ''zero'', boneTransforms =
      [(''arm'', \<lparr> d_rotation = Some 0, d_x = None, d_y = None, d_scaleX = None, d_scaleY = None \<rparr>)] \<rparr>"

definition poseFar :: pose where
  "poseFar = \<lparr> p_name = ''far'', boneTransforms =
      [(''arm'', \<lparr> d_rotation = Some (2 ^ 63), d_x = None, d_y = None, d_scaleX = None, d_scaleY = None \<rparr>)] \<rparr>"

definition libFar :: poseLibrary where
  "libFar = [''zero'' \<mapsto> poseZero, ''far'' \<mapsto> poseFar]"

definition farAction :: action where
  "farAction = \<lparr> a_name = ''spin'', duration = 1,
      keyframes = [\<lparr> k_time = 0, k_pose = ''zero'', easing = None \<rparr>,
                   \<lparr> k_time = 1, k_pose = ''far'', easing = None \<rparr>],
      category = ''misc'' \<rparr>"

section \<open>Angle interpolation\<close>

lemma wrap_above_None: "2 ^ 62 < d \<Longrightarrow> wrap_above d = None"
  by (subst wrap_above.simps) simp

lemma wrap_below_None: "d < - (2 ^ 62) \<Longrightarrow> wrap_below d = None"
  by (subst wrap_below.simps) simp

lemma wrap_above_spec:
  "d \<le> 2 ^ 62 \<Longrightarrow> \<exists>r. wrap_above d = Some r \<and> r \<le> 180 \<and> (d \<le> 180 \<longrightarrow> r = d)
     \<and> (180 < d \<longrightarrow> - 180 < r) \<and> (\<exists>k::int. r = d + 360 * of_int k)"
proof (induction d rule: wrap_above.induct)
  case (1 diff)
  show ?case
  proof (cases "180 < diff")
    case True
    with 1(2) have nb: "\<not> 2 ^ 62 < diff" and le: "diff - 360 \<le> 2 ^ 62" by simp_all
    from 1(1)[OF True nb le] obtain r and k :: int where
      r: "wrap_above (diff - 360) = Some r" "r \<le> 180" "diff - 360 \<le> 180 \<longrightarrow> r = diff - 360"
        "180 < diff - 360 \<longrightarrow> - 180 < r" "r = diff - 360 + 360 * of_int k"
      by blast
    have e: "wrap_above diff = Some r"
      using True nb r(1) by (subst wrap_above.simps) simp
    have "r = diff + 360 * of_int (k - 1)" using r(5) by simp
    then have ex: "\<exists>k::int. r = diff + 360 * of_int k" by blast
    have "- 180 < r" using r(3,4) True by (cases "diff - 360 \<le> 180") auto
    with e r(2) True ex show ?thesis by auto
  next
    case False
    then have e: "wrap_above diff = Some diff" by (subst wrap_above.simps) simp
    have "diff = diff + 360 * of_int (0::int)" by simp
    then have "\<exists>k::int. diff = diff + 360 * of_int k" by (rule exI)
    with False e show ?thesis by auto
  qed
qed

lemma wrap_below_spec:
  "- (2 ^ 62) \<le> d \<Longrightarrow> \<exists>r. wrap_below d = Some r \<and> - 180 \<le> r \<and> (- 180 \<le> d \<longrightarrow> r = d)
     \<and> (d < - 180 \<longrightarrow> r < 180) \<and> (\<exists>k::int. r = d + 360 * of_int k)"
proof (induction d rule: wrap_below.induct)
  case (1 diff)
  show ?case
  proof (cases "diff < - 180")
    case True
    with 1(2) have nb: "\<not> diff < - (2 ^ 62)" and le: "- (2 ^ 62) \<le> diff + 360" by simp_all
    from 1(1)[OF True nb le] obtain r and k :: int where
      r: "wrap_below (diff + 360) = Some r" "- 180 \<le> r" "- 180 \<le> diff + 360 \<longrightarrow> r = diff + 360"
        "diff + 360 < - 180 \<longrightarrow> r < 180" "r = diff + 360 + 360 * of_int k"
      by blast
    have e: "wrap_below diff = Some r"
      using True nb r(1) by (subst wrap_below.simps) simp
    have "r = diff + 360 * of_int (k + 1)" using r(5) by simp
    then have ex: "\<exists>k::int. r = diff + 360 * of_int k" by blast
    have "r < 180" using r(3,4) True by (cases "- 180 \<le> diff + 360") auto
    with e r(2) True ex show ?thesis by auto
  next
    case False
    then have e: "wrap_below diff = Some diff" by (subst wrap_below.simps) simp
    have "diff = diff + 360 * of_int (0::int)" by simp
    then have "\<exists>k::int. diff = diff + 360 * of_int k" by (rule exI)
    with False e show ?thesis by auto
  qed
qed

text \<open>The delta that the two loops leave, for a difference within the range.\<close>

lemma shortest_delta:
  assumes "\<bar>d\<bar> \<le> 2 ^ 62"
  shows "\<exists>r1 r. wrap_above d = Some r1 \<and> wrap_below r1 = Some r \<and> - 180 \<le> r \<and> r \<le> 180
     \<and> (\<exists>k::int. r = d + 360 * of_int k)
     \<and> (- 180 < d \<longrightarrow> - 180 < r) \<and> (d \<le> - 180 \<longrightarrow> r < 180)
     \<and> (- 180 \<le> d \<and> d \<le> 180 \<longrightarrow> r = d)"
proof -
  from assms have up: "d \<le> 2 ^ 62" and lo: "- (2 ^ 62) \<le> d" by simp_all
  from wrap_above_spec[OF up] obtain r1 and k :: int where
    r1: "wrap_above d = Some r1" "r1 \<le> 180" "d \<le> 180 \<longrightarrow> r1 = d" "180 < d \<longrightarrow> - 180 < r1"
      "r1 = d + 360 * of_int k" by blast
  have "- (2 ^ 62) \<le> r1" using r1(3,4) lo by (cases "d \<le> 180") auto
  from wrap_below_spec[OF this] obtain r and j :: int where
    r: "wrap_below r1 = Some r" "- 180 \<le> r" "- 180 \<le> r1 \<longrightarrow> r = r1" "r1 < - 180 \<longrightarrow> r < 180"
      "r = r1 + 360 * of_int j" by blast
  have "r = d + 360 * of_int (k + j)" using r1(5) r(5) by simp
  then have ex: "\<exists>k::int. r = d + 360 * of_int k" by (rule exI)
  have le: "r \<le> 180" using r(3,4) r1(2) by (cases "- 180 \<le> r1") auto
  have gt: "- 180 < d \<longrightarrow> - 180 < r" using r1(3,4) r(3) by (cases "d \<le> 180") auto
  have lt: "d \<le> - 180 \<longrightarrow> r < 180" using r1(3) r(3,4) by (cases "- 180 \<le> r1") auto
  have eq: "- 180 \<le> d \<and> d \<le> 180 \<longrightarrow> r = d" using r1(3) r(3) by auto
  from r1(1) r(1,2) le ex gt lt eq show ?thesis by blast
qed

lemma lerpAngle_beyond:
  assumes "2 ^ 62 < \<bar>b - a\<bar>"
  shows "lerpAngle a b t = None" "Transform_lerpAngle a b t = None"
proof -
  have "wrap_above (b - a) = None \<or> (wrap_above (b - a) = Some (b - a) \<and> wrap_below (b - a) = None)"
  proof (cases "2 ^ 62 < b - a")
    case True
    then show ?thesis by (simp add: wrap_above_None)
  next
    case False
    with assms have lt: "b - a < - (2 ^ 62)" by linarith
    then have "wrap_above (b - a) = Some (b - a)" by (subst wrap_above.simps) simp
    with lt show ?thesis by (simp add: wrap_below_None)
  qed
  then show "lerpAngle a b t = None" "Transform_lerpAngle a b t = None"
    by (auto simp: lerpAngle_def Transform_lerpAngle_def)
qed

lemma lerpAngle_within:
  assumes "\<bar>b - a\<bar> \<le> 2 ^ 62"
  shows "\<exists>(d::real) (k::int). d = b - a + 360 * of_int k \<and> - 180 \<le> d \<and> d \<le> 180
     \<and> (- 180 < b - a \<longrightarrow> - 180 < d) \<and> (b - a \<le> - 180 \<longrightarrow> d < 180)
     \<and> (- 180 \<le> b - a \<and> b - a \<le> 180 \<longrightarrow> d = b - a)
     \<and> (\<forall>t. lerpAngle a b t = Some (a + d * t) \<and> Transform_lerpAngle a b t = Some (a + d * t))"
proof -
  from shortest_delta[OF assms] obtain r1 r and k :: int where
    r: "wrap_above (b - a) = Some r1" "wrap_below r1 = Some r" "- 180 \<le> r" "r \<le> 180"
      "r = b - a + 360 * of_int k" "- 180 < b - a \<longrightarrow> - 180 < r" "b - a \<le> - 180 \<longrightarrow> r < 180"
      "- 180 \<le> b - a \<and> b - a \<le> 180 \<longrightarrow> r = b - a"
    by blast
  have "\<forall>t. lerpAngle a b t = Some (a + r * t) \<and> Transform_lerpAngle a b t = Some (a + r * t)"
    using r(1,2) by (simp add: lerpAngle_def Transform_lerpAngle_def)
  with r(3-8) show ?thesis by blast
qed




section \<open>Pose interpolation\<close>

lemma set_newSet_aux:
  "set (foldl (\<lambda>acc k. if k \<in> set acc then acc else acc @ [k]) acc ks) = set acc \<union> set ks"
  by (induction ks arbitrary: acc) auto

lemma set_newSet: "set (newSet ks) = set ks"
  by (simp add: newSet_def set_newSet_aux)

lemma getOrEmpty_notin:
  "k \<notin> fst ` set (boneTransforms p) \<Longrightarrow> getOrEmpty p k = emptyData"
  by (simp add: getOrEmpty_def map_of_eq_None_iff[THEN iffD2])

lemma no_keys_empty: "\<not> hasKeys d \<Longrightarrow> d = emptyData"
  by (cases d) (simp add: hasKeys_def emptyData_def)

lemma interpolate_empty: "interpolate emptyData emptyData t = Some emptyData"
  by (simp add: interpolate_def emptyData_def)

lemma getOrEmpty_cases:
  "getOrEmpty p k = emptyData \<or> (k, getOrEmpty p k) \<in> set (boneTransforms p)"
  by (auto simp: getOrEmpty_def split: option.splits dest: map_of_SomeD)

lemma rotationsBounded_getOrEmpty:
  "rotationsBounded p \<Longrightarrow> \<bar>orElse (d_rotation (getOrEmpty p k)) 0\<bar> \<le> 2 ^ 61"
  using getOrEmpty_cases[of p k]
  by (auto simp: rotationsBounded_def emptyData_def orElse_def)

lemma channelsBounded_rotations: "channelsBounded p \<Longrightarrow> rotationsBounded p"
  by (simp add: channelsBounded_def rotationsBounded_def)

text \<open>What \<open>interpolate\<close> returns when its call of \<open>lerpAngle\<close> returns (or is not made).\<close>

lemma interpolate_Some:
  assumes "\<bar>orElse (d_rotation b) 0 - orElse (d_rotation a) 0\<bar> \<le> 2 ^ 62"
  shows "\<exists>I. interpolate a b t = Some I \<and>
     d_rotation I = (if d_rotation a \<noteq> None \<or> d_rotation b \<noteq> None
        then lerpAngle (orElse (d_rotation a) 0) (orElse (d_rotation b) 0) t else None) \<and>
     d_x I = (if d_x a \<noteq> None \<or> d_x b \<noteq> None
        then Some (lerpValue (orElse (d_x a) 0) (orElse (d_x b) 0) t) else None) \<and>
     d_y I = (if d_y a \<noteq> None \<or> d_y b \<noteq> None
        then Some (lerpValue (orElse (d_y a) 0) (orElse (d_y b) 0) t) else None) \<and>
     d_scaleX I = (if d_scaleX a \<noteq> None \<or> d_scaleX b \<noteq> None
        then Some (lerpValue (orElse (d_scaleX a) 1) (orElse (d_scaleX b) 1) t) else None) \<and>
     d_scaleY I = (if d_scaleY a \<noteq> None \<or> d_scaleY b \<noteq> None
        then Some (lerpValue (orElse (d_scaleY a) 1) (orElse (d_scaleY b) 1) t) else None)"
proof -
  from lerpAngle_within[OF assms] obtain d where
    "lerpAngle (orElse (d_rotation a) 0) (orElse (d_rotation b) 0) t
       = Some (orElse (d_rotation a) 0 + d * t)"
    by blast
  then show ?thesis by (simp add: interpolate_def)
qed

lemma interpolate_bounded:
  assumes "rotationsBounded A" "rotationsBounded B"
  shows "\<bar>orElse (d_rotation (getOrEmpty B k)) 0 - orElse (d_rotation (getOrEmpty A k)) 0\<bar> \<le> 2 ^ 62"
proof -
  have "\<bar>x - y\<bar> \<le> 2 ^ 62" if "\<bar>x\<bar> \<le> 2 ^ 61" "\<bar>y\<bar> \<le> 2 ^ 61" for x y :: real
    using that by simp
  then show ?thesis
    using rotationsBounded_getOrEmpty[OF assms(1), of k] rotationsBounded_getOrEmpty[OF assms(2), of k]
    by blast
qed

text \<open>The loop of \<open>Pose.lerp\<close> when every call of its body returns.\<close>

lemma lerp_loop:
  assumes "\<forall>k\<in>set ks. interpolate (getOrEmpty A k) (getOrEmpty B k) t = Some (I k)"
  shows "\<exists>acc'. forEach (lerp_step A B t) ks acc = Some acc' \<and>
     (\<forall>k. map_of acc' k = (if k \<in> set ks \<and> hasKeys (I k) then Some (I k) else map_of acc k))"
  using assms
proof (induction ks arbitrary: acc)
  case Nil
  show ?case by simp
next
  case (Cons a ks)
  let ?acc1 = "if hasKeys (I a) then AList.update a (I a) acc else acc"
  from Cons.prems have s: "lerp_step A B t a acc = Some ?acc1"
    by (simp add: lerp_step_def Let_def)
  from Cons.prems have "\<forall>k\<in>set ks. interpolate (getOrEmpty A k) (getOrEmpty B k) t = Some (I k)"
    by simp
  from Cons.IH[OF this, of ?acc1] obtain acc' where
    acc': "forEach (lerp_step A B t) ks ?acc1 = Some acc'"
      "\<forall>k. map_of acc' k = (if k \<in> set ks \<and> hasKeys (I k) then Some (I k) else map_of ?acc1 k)"
    by blast
  have "map_of acc' k = (if k \<in> set (a # ks) \<and> hasKeys (I k) then Some (I k) else map_of acc k)" for k
    using acc'(2) by (simp add: update_conv')
  with s acc'(1) show ?case by simp
qed

lemma lerp_returns:
  assumes "\<forall>k. interpolate (getOrEmpty A k) (getOrEmpty B k) t = Some (I k)"
  shows "\<exists>R. lerp f A B t = Some R \<and> (\<forall>k. getOrEmpty R k = I k)"
proof -
  let ?ks = "newSet (map fst (boneTransforms A) @ map fst (boneTransforms B))"
  from assms have "\<forall>k\<in>set ?ks. interpolate (getOrEmpty A k) (getOrEmpty B k) t = Some (I k)"
    by simp
  from lerp_loop[OF this, of "[]"] obtain bts where
    bts: "forEach (lerp_step A B t) ?ks [] = Some bts"
      "\<forall>k. map_of bts k = (if k \<in> set ?ks \<and> hasKeys (I k) then Some (I k) else None)"
    by auto
  let ?R = "\<lparr> p_name = p_name A @ ''_to_'' @ p_name B @ ''_'' @ f t, boneTransforms = bts \<rparr>"
  have R: "lerp f A B t = Some ?R" using bts(1) by (simp add: lerp_def Let_def)
  have "getOrEmpty ?R k = I k" for k
  proof (cases "hasKeys (I k)")
    case False
    then show ?thesis using bts(2) no_keys_empty[OF False] by (simp add: getOrEmpty_def)
  next
    case True
    have "k \<in> set ?ks"
    proof (rule ccontr)
      assume "k \<notin> set ?ks"
      then have "getOrEmpty A k = emptyData" "getOrEmpty B k = emptyData"
        by (simp_all add: set_newSet getOrEmpty_notin)
      with assms[rule_format, of k] have "I k = emptyData" by (simp add: interpolate_empty)
      with True show False by (simp add: hasKeys_def emptyData_def)
    qed
    with True bts(2) show ?thesis by (simp add: getOrEmpty_def)
  qed
  with R show ?thesis by blast
qed

lemma lerp_bounded:
  assumes "rotationsBounded A" "rotationsBounded B"
  shows "\<exists>R. lerp f A B t = Some R \<and>
     (\<forall>k. interpolate (getOrEmpty A k) (getOrEmpty B k) t = Some (getOrEmpty R k))"
proof -
  have "\<exists>I. interpolate (getOrEmpty A k) (getOrEmpty B k) t = Some I" for k
    using interpolate_Some[OF interpolate_bounded[OF assms, of k], of t] by blast
  then have e: "\<forall>k. interpolate (getOrEmpty A k) (getOrEmpty B k) t
      = Some (the (interpolate (getOrEmpty A k) (getOrEmpty B k) t))"
    by (metis option.sel)
  from lerp_returns[OF e, of f] obtain R where
    "lerp f A B t = Some R"
    "\<forall>k. getOrEmpty R k = the (interpolate (getOrEmpty A k) (getOrEmpty B k) t)" by blast
  with e show ?thesis by simp
qed

text \<open>The loop does not return when one call of its body does not.\<close>

lemma forEach_None:
  "k \<in> set ks \<Longrightarrow> \<forall>s. f k s = None \<Longrightarrow> forEach f ks s = None"
  by (induction ks arbitrary: s) (auto split: option.splits)

lemma lerp_None:
  assumes "k \<in> fst ` set (boneTransforms A) \<union> fst ` set (boneTransforms B)"
    and "interpolate (getOrEmpty A k) (getOrEmpty B k) t = None"
  shows "lerp f A B t = None"
proof -
  let ?ks = "newSet (map fst (boneTransforms A) @ map fst (boneTransforms B))"
  from assms(1) have "k \<in> set ?ks" by (simp add: set_newSet)
  moreover from assms(2) have "\<forall>s. lerp_step A B t k s = None" by (simp add: lerp_step_def Let_def)
  ultimately have "forEach (lerp_step A B t) ?ks [] = None" by (rule forEach_None)
  then show ?thesis by (simp add: lerp_def Let_def)
qed



lemma bounded_sample: "channelsBounded poseA" "channelsBounded poseB"
  by (simp_all add: channelsBounded_def poseA_def poseB_def orElse_def)






section \<open>Pose difference\<close>

lemma map_of_difference_fold:
  "distinct (map fst es) \<Longrightarrow>
   map_of (foldl (difference_step from) acc es) k =
     (case map_of es k of None \<Rightarrow> map_of acc k
      | Some tt \<Rightarrow> Some (diffData (getOrEmpty from k) tt))"
proof (induction es arbitrary: acc)
  case Nil
  show ?case by simp
next
  case (Cons e es)
  obtain k' v where e: "e = (k', v)" by (cases e)
  from Cons.prems e have n: "map_of es k' = None" and d: "distinct (map fst es)"
    by (auto simp: map_of_eq_None_iff)
  have u: "map_of (difference_step from acc e) k =
      (if k = k' then Some (diffData (getOrEmpty from k') v) else map_of acc k)"
    by (simp add: e difference_step_def Let_def update_conv')
  show ?case
    using n unfolding foldl_Cons Cons.IH[OF d] u by (auto simp: e split: option.splits)
qed

text \<open>
  Claim C5, as the code has it. For poses \<open>from\<close> and \<open>to\<close> (a \<open>Map\<close>, so the keys of \<open>to\<close>
  are distinct) the difference holds an entry exactly for the bones of \<open>to\<close>; in it each
  of the channels rotation, x and y is present exactly when it is present in \<open>to\<close>, with
  value \<open>to\<close>'s minus \<open>from\<close>'s (0 when absent in \<open>from\<close>); scaleX and scaleY are never
  present.
\<close>

theorem difference_channels:
  assumes "distinct (map fst (boneTransforms to))"
  shows "map_of (boneTransforms (difference from to)) bn =
     (case map_of (boneTransforms to) bn of None \<Rightarrow> None
      | Some tt \<Rightarrow> Some \<lparr>
          d_rotation = map_option (\<lambda>v. v - orElse (d_rotation (getOrEmpty from bn)) 0) (d_rotation tt),
          d_x = map_option (\<lambda>v. v - orElse (d_x (getOrEmpty from bn)) 0) (d_x tt),
          d_y = map_option (\<lambda>v. v - orElse (d_y (getOrEmpty from bn)) 0) (d_y tt),
          d_scaleX = None, d_scaleY = None \<rparr>)"
proof -
  have "diffData ft tt = \<lparr>
          d_rotation = map_option (\<lambda>v. v - orElse (d_rotation ft) 0) (d_rotation tt),
          d_x = map_option (\<lambda>v. v - orElse (d_x ft) 0) (d_x tt),
          d_y = map_option (\<lambda>v. v - orElse (d_y ft) 0) (d_y tt),
          d_scaleX = None, d_scaleY = None \<rparr>" for ft tt
    by (simp add: diffData_def split: option.splits)
  then show ?thesis
    by (simp add: difference_def map_of_difference_fold[OF assms] split: option.splits)
qed

text \<open>On the sample poses: \<open>arm\<close> and \<open>leg\<close> are bones of \<open>to\<close>, \<open>head\<close> is not.\<close>

theorem difference_channels_witness:
  "distinct (map fst (boneTransforms poseB)) \<and>
   map_of (boneTransforms (difference poseA poseB)) ''arm'' =
      Some \<lparr> d_rotation = Some 270, d_x = None, d_y = None, d_scaleX = None, d_scaleY = None \<rparr> \<and>
   map_of (boneTransforms (difference poseA poseB)) ''leg'' =
      Some \<lparr> d_rotation = None, d_x = None, d_y = Some 5, d_scaleX = None, d_scaleY = None \<rparr> \<and>
   map_of (boneTransforms (difference poseA poseB)) ''head'' = None"
proof -
  have d: "distinct (map fst (boneTransforms poseB))" by (simp add: poseB_def)
  show ?thesis
    using d difference_channels[OF d, of poseA "''arm''"] difference_channels[OF d, of poseA "''leg''"]
      difference_channels[OF d, of poseA "''head''"]
    by (simp add: getOrEmpty_def poseA_def poseB_def orElse_def emptyData_def)
qed

text \<open>Claim C5 as stated fails on the scale channels: scaleX of \<open>arm\<close> is present in \<open>to\<close>
  with value 2, and absent from the difference.\<close>

theorem difference_channels_counterexample:
  "map_of (boneTransforms poseB) ''arm'' \<noteq> None \<and>
   d_scaleX (the (map_of (boneTransforms poseB) ''arm'')) = Some 2 \<and>
   d_scaleX (getOrEmpty (difference poseA poseB) ''arm'') = None"
  by (simp add: getOrEmpty_def difference_def difference_step_def diffData_def Let_def
      poseA_def poseB_def update_conv')

section \<open>Sequence: beat order and duration\<close>

lemma beats_foldl_addBeat_filter:
  "filter (\<lambda>b. b_time b = t) (beats (foldl addBeat sq bs)) = filter (\<lambda>b. b_time b = t) (beats sq @ bs)"
proof (induction bs arbitrary: sq)
  case Nil
  show ?case by simp
next
  case (Cons b bs)
  have "filter (\<lambda>b. b_time b = t) (beats (addBeat sq b)) = filter (\<lambda>b. b_time b = t) (beats sq @ [b])"
    by (simp add: addBeat_def sort_key_stable)
  then show ?case by (simp add: Cons.IH)
qed

lemma sorted_addBeat: "sorted (map b_time (beats (addBeat sq b)))"
  by (simp add: addBeat_def)

lemma sorted_foldl_addBeat:
  "sorted (map b_time (beats sq)) \<Longrightarrow> sorted (map b_time (beats (foldl addBeat sq bs)))"
  by (induction bs arbitrary: sq) (simp_all add: sorted_addBeat)

text \<open>
  Claim C8. After a call of \<open>addBeat\<close>, on any sequence, the beat list is sorted ascending
  by time. After any series of \<open>addBeat\<close> calls on a new (empty) sequence the list is
  sorted, and for every time \<open>t\<close> the beats of time \<open>t\<close> stand in the order in which they
  were added.
\<close>

theorem addBeat_sorted_stable:
  "sorted (map b_time (beats (addBeat sq b))) \<and>
   sorted (map b_time (beats (foldl addBeat (newSequence nm lib) bs))) \<and>
   filter (\<lambda>b. b_time b = t) (beats (foldl addBeat (newSequence nm lib) bs)) = filter (\<lambda>b. b_time b = t) bs"
proof -
  have "sorted (map b_time (beats (newSequence nm lib)))" by (simp add: newSequence_def)
  then have "sorted (map b_time (beats (foldl addBeat (newSequence nm lib) bs)))"
    by (rule sorted_foldl_addBeat)
  moreover have "filter (\<lambda>b. b_time b = t) (beats (foldl addBeat (newSequence nm lib) bs))
      = filter (\<lambda>b. b_time b = t) bs"
    by (simp add: beats_foldl_addBeat_filter newSequence_def)
  ultimately show ?thesis using sorted_addBeat by blast
qed

lemma foldl_maxEnd:
  "0 \<le> m \<Longrightarrow>
   foldl (\<lambda>maxEnd b. (case actionLibrary sq (b_action b) of None \<Rightarrow> maxEnd
      | Some a \<Rightarrow> (let end' = b_time b + duration a in max maxEnd end'))) m bs
    = Max (insert m (beatEnd sq ` set bs))"
proof (induction bs arbitrary: m)
  case Nil
  show ?case by simp
next
  case (Cons b bs)
  let ?B = "beatEnd sq ` set bs"
  have fin: "finite ?B" by simp
  show ?case
  proof (cases "actionLibrary sq (b_action b)")
    case None
    then have e: "beatEnd sq b = 0" by (simp add: beatEnd_def)
    have "Max (insert m (insert 0 ?B)) = Max (insert m ?B)"
    proof -
      have "Max (insert 0 (insert m ?B)) = max 0 (Max (insert m ?B))"
        using fin by (subst Max_insert) simp_all
      moreover have "m \<le> Max (insert m ?B)" using fin by simp
      then have "0 \<le> Max (insert m ?B)" using Cons.prems by linarith
      ultimately show ?thesis by (simp add: insert_commute max_def)
    qed
    with None e Cons.IH[OF Cons.prems] show ?thesis by simp
  next
    case (Some a)
    then have e: "beatEnd sq b = b_time b + duration a" by (simp add: beatEnd_def)
    have m': "0 \<le> max m (b_time b + duration a)" using Cons.prems by simp
    have "Max (insert (max m (b_time b + duration a)) ?B) = Max (insert m (insert (b_time b + duration a) ?B))"
    proof (cases "?B = {}")
      case True
      then show ?thesis by simp
    next
      case False
      then show ?thesis using fin by (simp add: max.assoc)
    qed
    with Some e Cons.IH[OF m'] show ?thesis by (simp add: Let_def)
  qed
qed

text \<open>
  Claim C7, as the code has it. \<open>getDuration\<close> is the maximum of 0 and of what the beats
  contribute (time plus duration of the resolved action, 0 for an unresolved one); it
  is 0 when there are no beats. When there is a beat and no contribution is negative,
  this is the maximum of the contributions alone, as the claim has it.
\<close>

theorem getDuration_max:
  "getDuration sq = Max (insert 0 (beatEnd sq ` set (beats sq))) \<and>
   (beats sq \<noteq> [] \<and> (\<forall>b\<in>set (beats sq). 0 \<le> beatEnd sq b) \<longrightarrow>
      getDuration sq = Max (beatEnd sq ` set (beats sq)))"
proof -
  have a: "getDuration sq = Max (insert 0 (beatEnd sq ` set (beats sq)))"
  proof (cases "beats sq = []")
    case True
    then show ?thesis by (simp add: getDuration_def)
  next
    case False
    then show ?thesis unfolding getDuration_def using foldl_maxEnd[of 0 sq "beats sq"] by simp
  qed
  have "Max (insert 0 (beatEnd sq ` set (beats sq))) = Max (beatEnd sq ` set (beats sq))"
    if ne: "beats sq \<noteq> []" and pos: "\<forall>b\<in>set (beats sq). 0 \<le> beatEnd sq b"
  proof -
    let ?B = "beatEnd sq ` set (beats sq)"
    have fin: "finite ?B" and nonempty: "?B \<noteq> {}" using ne by simp_all
    then have "Max ?B \<in> ?B" by (rule Max_in)
    with pos have "0 \<le> Max ?B" by auto
    then show ?thesis using fin nonempty by (simp add: max_def)
  qed
  with a show ?thesis by simp
qed

text \<open>Claim C7 as stated fails when every beat ends before time 0: the one beat of the
  sample sequence starts at -2 and lasts 0.3, the maximum over the beats is -1.7, and
  \<open>getDuration\<close> is 0.\<close>

theorem getDuration_max_counterexample:
  "beats earlySequence = [earlyBeat] \<and> beatEnd earlySequence earlyBeat = - 17/10 \<and>
   getDuration earlySequence = 0"
  by (simp add: earlySequence_def earlyBeat_def beatEnd_def getDuration_def libJab_def jab_def)

text \<open>On a sequence of two beats, one of them with an unknown action.\<close>

theorem getDuration_max_witness:
  "beats fightSequence = [beat2, beat1] \<and> 0 \<le> beatEnd fightSequence beat2 \<and>
   0 \<le> beatEnd fightSequence beat1 \<and> getDuration fightSequence = 13/10"
proof -
  have e: "beatEnd fightSequence beat1 = 13/10" "beatEnd fightSequence beat2 = 0"
    by (simp_all add: beatEnd_def fightSequence_def beat1_def beat2_def libJab_def jab_def)
  have b: "beats fightSequence = [beat2, beat1]" by (simp add: fightSequence_def)
  show ?thesis using getDuration_max[of fightSequence] by (simp add: b e)
qed

section \<open>Action preview\<close>

lemma findSegment_in_bounds: "\<exists>r. findSegment t kfs i = Inr r"
proof (induction t kfs i rule: findSegment.induct)
  case (1 t kfs i)
  show ?case
  proof (cases "int i < int (length kfs) - 1")
    case False
    then show ?thesis by (subst findSegment.simps) simp
  next
    case True
    then obtain kf kf' where k: "elemAt kfs (int i) = Some kf" "elemAt kfs (int i + 1) = Some kf'"
      by (auto simp: elemAt_def)
    show ?thesis
    proof (cases "t \<ge> k_time kf \<and> t \<le> k_time kf'")
      case b: True
      with True k show ?thesis by (subst findSegment.simps) simp
    next
      case b: False
      from 1[OF True k(1) k(2) b] obtain r where "findSegment t kfs (i + 1) = Inr r" ..
      with True k b show ?thesis by (subst findSegment.simps) auto
    qed
  qed
qed

lemma findSegment_Nil: "findSegment t [] i = Inr None"
  by (subst findSegment.simps) simp

lemma findSegment_before_all:
  "\<forall>kf\<in>set kfs. t < k_time kf \<Longrightarrow> findSegment t kfs i = Inr None"
proof (induction t kfs i rule: findSegment.induct)
  case (1 t kfs i)
  show ?case
  proof (cases "int i < int (length kfs) - 1")
    case False
    then show ?thesis by (subst findSegment.simps) simp
  next
    case True
    then have k: "elemAt kfs (int i) = Some (kfs ! i)" "elemAt kfs (int i + 1) = Some (kfs ! (i + 1))"
      by (auto simp: elemAt_def nat_add_distrib)
    from True have "kfs ! i \<in> set kfs" by simp
    with 1(2) have b: "\<not> (t \<ge> k_time (kfs ! i) \<and> t \<le> k_time (kfs ! (i + 1)))" by auto
    from 1(1)[OF True k b 1(2)] have "findSegment t kfs (i + 1) = Inr None" .
    with True k b show ?thesis by (subst findSegment.simps) simp
  qed
qed

lemma findSegment_after_all:
  "\<forall>kf\<in>set kfs. k_time kf < t \<Longrightarrow> findSegment t kfs i = Inr None"
proof (induction t kfs i rule: findSegment.induct)
  case (1 t kfs i)
  show ?case
  proof (cases "int i < int (length kfs) - 1")
    case False
    then show ?thesis by (subst findSegment.simps) simp
  next
    case True
    then have k: "elemAt kfs (int i) = Some (kfs ! i)" "elemAt kfs (int i + 1) = Some (kfs ! (i + 1))"
      by (auto simp: elemAt_def nat_add_distrib)
    from True have "kfs ! (i + 1) \<in> set kfs" by simp
    with 1(2) have b: "\<not> (t \<ge> k_time (kfs ! i) \<and> t \<le> k_time (kfs ! (i + 1)))" by auto
    from 1(1)[OF True k b 1(2)] have "findSegment t kfs (i + 1) = Inr None" .
    with True k b show ?thesis by (subst findSegment.simps) simp
  qed
qed

lemma libraryBounded_get:
  "libraryBounded lib \<Longrightarrow> lib k = Some p \<Longrightarrow> rotationsBounded p"
  by (auto simp: libraryBounded_def ran_def)

lemma getPoseAtTime_no_TypeError:
  assumes "keyframes this \<noteq> []"
  shows "getPoseAtTime f t lib this \<noteq> Some (Inl TypeError)"
proof -
  from assms have "elemAt (keyframes this) 0 \<noteq> None"
    "elemAt (keyframes this) (int (length (keyframes this)) - 1) \<noteq> None"
    by (auto simp: elemAt_def)
  with findSegment_in_bounds[of t "keyframes this" 0] show ?thesis
    by (auto simp: getPoseAtTime_def split: option.splits prod.splits if_splits)
qed

lemma getPoseAtTime_returns:
  assumes "keyframes this \<noteq> []" and "libraryBounded lib"
  shows "\<exists>r. getPoseAtTime f t lib this = Some (Inr r)"
proof -
  from assms(1) have e: "elemAt (keyframes this) 0 \<noteq> None"
    "elemAt (keyframes this) (int (length (keyframes this)) - 1) \<noteq> None"
    by (auto simp: elemAt_def)
  from findSegment_in_bounds[of t "keyframes this" 0] obtain r where
    r: "findSegment t (keyframes this) 0 = Inr r" ..
  show ?thesis
  proof (cases r)
    case None
    with r e show ?thesis by (auto simp: getPoseAtTime_def split: option.splits)
  next
    case (Some pr)
    obtain fromKf toKf where pr: "pr = (fromKf, toKf)" by (cases pr)
    show ?thesis
    proof (cases "lib (k_pose fromKf)")
      case None
      with r Some pr show ?thesis by (simp add: getPoseAtTime_def)
    next
      case fp: (Some fromPose)
      show ?thesis
      proof (cases "lib (k_pose toKf)")
        case None
        with r Some pr fp show ?thesis by (simp add: getPoseAtTime_def)
      next
        case tp: (Some toPose)
        note rb = libraryBounded_get[OF assms(2) fp] libraryBounded_get[OF assms(2) tp]
        from lerp_bounded[OF rb, of f 0] obtain R0 where R0: "lerp f fromPose toPose 0 = Some R0"
          by blast
        from lerp_bounded[OF rb, of f "(t - k_time fromKf) / (k_time toKf - k_time fromKf)"]
        obtain R where
          R: "lerp f fromPose toPose ((t - k_time fromKf) / (k_time toKf - k_time fromKf)) = Some R"
          by blast
        from r Some pr fp tp R0 R show ?thesis by (simp add: getPoseAtTime_def)
      qed
    qed
  qed
qed

lemma bounded_libAB: "libraryBounded libAB"
  by (auto simp: libraryBounded_def libAB_def ran_def channelsBounded_rotations bounded_sample
      split: if_splits)

text \<open>
  Claim C10, as the code has it. On an action with at least one keyframe \<open>getPoseAtTime\<close>
  reads no keyframe outside the list and does not throw, for every \<open>t\<close> and every pose
  library; it returns when, in addition, no rotation of a pose of the library exceeds
  \<open>2 ^ 61\<close> in absolute value. On an action with no keyframe it throws, for every \<open>t\<close>,
  when it reads \<open>pose\<close> of the \<open>undefined\<close> that \<open>keyframes[0]\<close> or
  \<open>keyframes[length - 1]\<close> gave.
\<close>

theorem getPoseAtTime_total:
  "(keyframes this \<noteq> [] \<longrightarrow> getPoseAtTime f t lib this \<noteq> Some (Inl TypeError)) \<and>
   (keyframes this \<noteq> [] \<and> libraryBounded lib \<longrightarrow> (\<exists>r. getPoseAtTime f t lib this = Some (Inr r))) \<and>
   (keyframes this = [] \<longrightarrow> getPoseAtTime f t lib this = Some (Inl TypeError))"
proof (intro conjI impI)
  assume "keyframes this \<noteq> []"
  then show "getPoseAtTime f t lib this \<noteq> Some (Inl TypeError)"
    by (rule getPoseAtTime_no_TypeError)
next
  assume "keyframes this \<noteq> [] \<and> libraryBounded lib"
  then show "\<exists>r. getPoseAtTime f t lib this = Some (Inr r)"
    using getPoseAtTime_returns by blast
next
  assume "keyframes this = []"
  then show "getPoseAtTime f t lib this = Some (Inl TypeError)"
    by (simp add: getPoseAtTime_def findSegment_Nil elemAt_def)
qed

text \<open>On an action with two keyframes, between them, where the two poses are interpolated,
  and on an action with none.\<close>

theorem getPoseAtTime_total_witness:
  "keyframes lateAction \<noteq> [] \<and> libraryBounded libAB \<and>
   (\<exists>p. getPoseAtTime label0 (3/5) libAB lateAction = Some (Inr (Posed p)) \<and>
        lerp label0 poseA poseB (1/2) = Some p) \<and>
   keyframes noKeyAction = [] \<and> getPoseAtTime label0 (3/5) libAB noKeyAction = Some (Inl TypeError)"
proof -
  have k: "keyframes lateAction \<noteq> []" "keyframes noKeyAction = []"
    by (simp_all add: lateAction_def noKeyAction_def)
  have s: "findSegment (3/5) (keyframes lateAction) 0
      = Inr (Some (\<lparr> k_time = 2/10, k_pose = ''a'', easing = None \<rparr>,
                   \<lparr> k_time = 1, k_pose = ''b'', easing = None \<rparr>))"
    by (subst findSegment.simps) (simp add: lateAction_def elemAt_def)
  have g: "getPoseAtTime label0 (3/5) libAB lateAction
      = map_option (\<lambda>p. Inr (Posed p)) (lerp label0 poseA poseB (1/2))"
    by (simp add: getPoseAtTime_def s libAB_def)
  from getPoseAtTime_total[of lateAction label0 "3/5" libAB] k(1) bounded_libAB
  obtain r where "getPoseAtTime label0 (3/5) libAB lateAction = Some (Inr r)" by blast
  with g have "\<exists>p. getPoseAtTime label0 (3/5) libAB lateAction = Some (Inr (Posed p)) \<and>
        lerp label0 poseA poseB (1/2) = Some p"
    by (cases "lerp label0 poseA poseB (1/2)") simp_all
  then show ?thesis using k bounded_libAB getPoseAtTime_total[of noKeyAction label0 "3/5" libAB]
    by simp
qed

text \<open>Claim C10 as stated fails when two bracketing poses have rotations more than \<open>2 ^ 62\<close>
  apart: the sample action has keyframes at times 0 and 1 whose poses give the bone \<open>arm\<close>
  the rotations 0 and \<open>2 ^ 63\<close>. At \<open>t = 1/2\<close> the call of \<open>lerp\<close> enters the first loop of
  \<open>lerpAngle\<close>, where subtracting 360 no longer changes the difference, and
  \<open>getPoseAtTime\<close> does not return.\<close>

theorem getPoseAtTime_total_counterexample:
  "keyframes farAction \<noteq> [] \<and> getPoseAtTime label0 (1/2) libFar farAction = None"
proof -
  have s: "findSegment (1/2) (keyframes farAction) 0
      = Inr (Some (\<lparr> k_time = 0, k_pose = ''zero'', easing = None \<rparr>,
                   \<lparr> k_time = 1, k_pose = ''far'', easing = None \<rparr>))"
    by (subst findSegment.simps) (simp add: farAction_def elemAt_def)
  have "lerpAngle 0 (2 ^ 63) (1/2) = None" by (rule lerpAngle_beyond) simp
  then have "interpolate (getOrEmpty poseZero ''arm'') (getOrEmpty poseFar ''arm'') (1/2) = None"
    by (simp add: interpolate_def getOrEmpty_def poseZero_def poseFar_def orElse_def)
  moreover have "''arm'' \<in> fst ` set (boneTransforms poseZero) \<union> fst ` set (boneTransforms poseFar)"
    by (simp add: poseZero_def)
  ultimately have "lerp label0 poseZero poseFar (1/2) = None" by (rule lerp_None[rotated])
  then show ?thesis by (simp add: getPoseAtTime_def s libFar_def) (simp add: farAction_def)
qed

text \<open>Outside the range of the keyframe times the code looks at the sign of \<open>t\<close> only: it
  returns the first keyframe's pose for \<open>t \<le> 0\<close> and the last keyframe's pose for \<open>0 < t\<close>,
  whether \<open>t\<close> is below or above the range.\<close>

lemma getPoseAtTime_outside_range:
  assumes "keyframes this \<noteq> []"
    and "(\<forall>kf\<in>set (keyframes this). t < k_time kf) \<or> (\<forall>kf\<in>set (keyframes this). k_time kf < t)"
  shows "getPoseAtTime f t lib this =
     Some (Inr (case lib (k_pose (if t \<le> 0 then hd (keyframes this) else last (keyframes this))) of
            None \<Rightarrow> Null | Some p \<Rightarrow> Posed p))"
proof -
  from assms(2) have n: "findSegment t (keyframes this) 0 = Inr None"
    using findSegment_before_all findSegment_after_all by blast
  from assms(1) have "elemAt (keyframes this) 0 = Some (hd (keyframes this))"
    "elemAt (keyframes this) (int (length (keyframes this)) - 1) = Some (last (keyframes this))"
    by (auto simp: elemAt_def hd_conv_nth last_conv_nth nat_diff_distrib')
  with n show ?thesis by (simp add: getPoseAtTime_def)
qed

text \<open>
  Claim C6 fails on the code. The sample action has its first keyframe at time 0.2 (pose
  \<open>a\<close>) and its last at time 1 (pose \<open>b\<close>). At \<open>t = 0.1\<close>, below the first keyframe's time, the
  claim gives the first keyframe's pose; the code tests \<open>t <= 0\<close> and returns the last
  keyframe's pose.
\<close>

theorem getPoseAtTime_before_first_keyframe:
  "getPoseAtTime label0 (1/10) libAB lateAction = Some (Inr (Posed poseB)) \<and>
   elemAt (keyframes lateAction) 0 = Some \<lparr> k_time = 2/10, k_pose = ''a'', easing = None \<rparr> \<and>
   libAB ''a'' = Some poseA \<and> poseA \<noteq> poseB"
proof -
  have "findSegment (1/10) (keyframes lateAction) 0 = Inr None"
    by (subst findSegment.simps, simp add: lateAction_def elemAt_def,
        subst findSegment.simps, simp)
  then have "getPoseAtTime label0 (1/10) libAB lateAction = Some (Inr (Posed poseB))"
    by (simp add: getPoseAtTime_def elemAt_def) (simp add: lateAction_def libAB_def)
  moreover have "poseA \<noteq> poseB" by (simp add: poseA_def poseB_def)
  ultimately show ?thesis by (simp add: lateAction_def elemAt_def libAB_def)
qed

section \<open>World transforms over the bone hierarchy\<close>

subsection \<open>Loops\<close>

lemma forEach_preserves:
  assumes "forEach f cs s = Some s'" and "P s"
    and "\<And>c s1 s2. c \<in> set cs \<Longrightarrow> P s1 \<Longrightarrow> f c s1 = Some s2 \<Longrightarrow> P s2"
  shows "P s'"
  using assms
proof (induction cs arbitrary: s)
  case Nil
  then show ?case by simp
next
  case (Cons c cs)
  from Cons.prems(1) obtain s1 where s1: "f c s = Some s1" "forEach f cs s1 = Some s'"
    by (auto split: option.splits)
  have "P s1" by (rule Cons.prems(3)[OF _ Cons.prems(2) s1(1)]) simp
  then show ?case by (rule Cons.IH[OF s1(2)]) (rule Cons.prems(3), simp_all)
qed

lemma forEach_total:
  assumes "P s"
    and "\<And>c s1. c \<in> set cs \<Longrightarrow> P s1 \<Longrightarrow> \<exists>s2. f c s1 = Some s2 \<and> P s2"
  shows "\<exists>s'. forEach f cs s = Some s'"
  using assms
proof (induction cs arbitrary: s)
  case Nil
  then show ?case by simp
next
  case (Cons c cs)
  from Cons.prems obtain s1 where s1: "f c s = Some s1" "P s1"
    by (meson list.set_intros(1))
  have "\<exists>s'. forEach f cs s1 = Some s'"
    using Cons.IH[OF s1(2)] Cons.prems(2) by simp
  then show ?case using s1(1) by simp
qed

lemma forEach_visited:
  assumes "forEach f cs s = Some s'" and "I D s"
    and "\<And>c D s1 s2. c \<in> set cs \<Longrightarrow> I D s1 \<Longrightarrow> f c s1 = Some s2 \<Longrightarrow> I (insert c D) s2"
  shows "I (D \<union> set cs) s'"
  using assms
proof (induction cs arbitrary: s D)
  case Nil
  then show ?case by simp
next
  case (Cons c cs)
  from Cons.prems(1) obtain s1 where s1: "f c s = Some s1" "forEach f cs s1 = Some s'"
    by (auto split: option.splits)
  have "I (insert c D) s1" by (rule Cons.prems(3)[OF _ Cons.prems(2) s1(1)]) simp
  then have "I (insert c D \<union> set cs) s'"
    by (rule Cons.IH[OF s1(2)]) (rule Cons.prems(3), simp_all)
  then show ?case by simp
qed

subsection \<open>Frames\<close>

lemma frame_upd_setWorld: "s n = Some b \<Longrightarrow> frame (s(n \<mapsto> setWorld par b)) = frame s"
  by (auto simp: frame_def setWorld_def unworld_def Let_def fun_eq_iff split: option.splits)

lemma frame_eqD:
  assumes "frame s' = frame s" "s n = Some b"
  shows "\<exists>b'. s' n = Some b' \<and> parent b' = parent b \<and> children b' = children b
     \<and> localTransform b' = localTransform b \<and> bindTransform b' = bindTransform b
     \<and> bone_name b' = bone_name b \<and> bone_length b' = bone_length b"
proof -
  from assms(1) have "frame s' n = frame s n" by simp
  with assms(2) have "map_option unworld (s' n) = Some (unworld b)"
    by (simp add: frame_def)
  then obtain b' where b': "s' n = Some b'" "unworld b' = unworld b" by auto
  from b'(2) have "parent b' = parent b \<and> children b' = children b
     \<and> localTransform b' = localTransform b \<and> bindTransform b' = bindTransform b
     \<and> bone_name b' = bone_name b \<and> bone_length b' = bone_length b"
    by (cases b, cases b') (simp add: unworld_def)
  with b'(1) show ?thesis by blast
qed

lemma frame_eq_None: "frame s' = frame s \<Longrightarrow> s n = None \<Longrightarrow> s' n = None"
  by (metis frame_def option.map_disc_iff)

lemma updateWorldTransform_frame:
  "updateWorldTransform d n s = Some s' \<Longrightarrow> frame s' = frame s"
proof (induction d arbitrary: n s s')
  case 0
  then show ?case by simp
next
  case (Suc d)
  from Suc.prems obtain b where b: "s n = Some b" by (auto split: option.splits)
  from Suc.prems b obtain par where
    loop: "forEach (\<lambda>child s'. updateWorldTransform d child s') (children b) (s(n \<mapsto> setWorld par b)) = Some s'"
    by (auto split: option.splits)
  have "frame s' = frame s"
    by (rule forEach_preserves[OF loop, where P = "\<lambda>t. frame t = frame s"])
       (simp_all add: frame_upd_setWorld[of s n b] b Suc.IH)
  then show ?case .
qed


subsection \<open>Hierarchies\<close>

lemma hier_eqD:
  assumes "hier s' = hier s" "s n = Some b"
  shows "\<exists>b'. s' n = Some b' \<and> parent b' = parent b \<and> children b' = children b"
proof -
  from assms(1) have "hier s' n = hier s n" by simp
  with assms(2) show ?thesis by (auto simp: hier_def)
qed

lemma hier_dom:
  assumes "hier s' = hier s"
  shows "dom s' = dom s"
proof -
  have "(s' n = None) = (s n = None)" for n
  proof -
    from assms have "hier s' n = hier s n" by simp
    then show ?thesis by (cases "s' n"; cases "s n") (simp_all add: hier_def)
  qed
  then show ?thesis unfolding dom_def by simp
qed

lemma frame_hier: "frame s' = frame s \<Longrightarrow> hier s' = hier s"
proof (rule ext)
  fix n assume f: "frame s' = frame s"
  show "hier s' n = hier s n"
  proof (cases "s n")
    case None
    with frame_eq_None[OF f] show ?thesis by (simp add: hier_def)
  next
    case (Some b)
    from frame_eqD[OF f Some] Some show ?thesis by (auto simp: hier_def)
  qed
qed

lemma child_rel_hier: "hier s' = hier s \<Longrightarrow> child_rel s' = child_rel s"
proof -
  have "child_rel s2 \<subseteq> child_rel s1" if "hier s2 = hier s1" for s1 s2
  proof
    fix e assume "e \<in> child_rel s2"
    then obtain n c b where e: "e = (n, c)" "s2 n = Some b" "c \<in> set (children b)"
      by (auto simp: child_rel_def)
    from hier_eqD[OF that[symmetric] e(2)] e(3) show "e \<in> child_rel s1"
      by (auto simp: child_rel_def e(1))
  qed
  from this[of s' s] this[of s s'] show "hier s' = hier s \<Longrightarrow> child_rel s' = child_rel s"
    by simp
qed

lemma subtree_hier: "hier s' = hier s \<Longrightarrow> subtree s' p = subtree s p"
  using child_rel_hier[of s' s] by (simp add: subtree_def)

lemma descendants_hier: "hier s' = hier s \<Longrightarrow> descendants s' p = descendants s p"
  using child_rel_hier[of s' s] by (simp add: descendants_def)

lemma wf_childD:
  assumes "wf_bones s" "s n = Some b" "c \<in> set (children b)"
  shows "\<exists>cb. s c = Some cb \<and> parent cb = Some n"
proof -
  from assms(1) have "\<forall>n b c. s n = Some b \<and> c \<in> set (children b)
      \<longrightarrow> (\<exists>cb. s c = Some cb \<and> parent cb = Some n)"
    unfolding wf_bones_def by (rule conjunct1[OF conjunct2])
  then show ?thesis using assms(2,3) by (elim allE[of _ n] allE[of _ b] allE[of _ c]) simp
qed

lemma wf_parentD:
  assumes "wf_bones s" "s n = Some b" "parent b = Some p"
  shows "\<exists>pb. s p = Some pb \<and> n \<in> set (children pb)"
proof -
  from assms(1) have "\<forall>n b p. s n = Some b \<and> parent b = Some p
      \<longrightarrow> (\<exists>pb. s p = Some pb \<and> n \<in> set (children pb))"
    unfolding wf_bones_def by (rule conjunct2[OF conjunct2])
  then show ?thesis using assms(2,3) by (elim allE[of _ n] allE[of _ b] allE[of _ p]) simp
qed

lemma wf_bones_hier:
  assumes "hier s' = hier s" "wf_bones s"
  shows "wf_bones s'"
  unfolding wf_bones_def
proof (intro conjI allI impI)
  show "finite (dom s')" using hier_dom[OF assms(1)] assms(2) by (simp add: wf_bones_def)
next
  fix n b c assume a: "s' n = Some b \<and> c \<in> set (children b)"
  from hier_eqD[OF assms(1)[symmetric], of n b] a
  obtain b0 where b0: "s n = Some b0" "children b0 = children b" by auto
  with a wf_childD[OF assms(2), of n b0 c] obtain cb where cb: "s c = Some cb" "parent cb = Some n"
    by auto
  from hier_eqD[OF assms(1) cb(1)] cb(2)
  show "\<exists>cb. s' c = Some cb \<and> parent cb = Some n" by auto
next
  fix n b p assume a: "s' n = Some b \<and> parent b = Some p"
  from hier_eqD[OF assms(1)[symmetric], of n b] a
  obtain b0 where b0: "s n = Some b0" "parent b0 = Some p" by auto
  with wf_parentD[OF assms(2), of n b0 p] obtain pb where pb: "s p = Some pb" "n \<in> set (children pb)"
    by auto
  from hier_eqD[OF assms(1) pb(1)] pb(2)
  show "\<exists>pb. s' p = Some pb \<and> n \<in> set (children pb)" by auto
qed

lemma level_hier: "level s n j \<Longrightarrow> hier s' = hier s \<Longrightarrow> level s' n j"
proof (induction rule: level.induct)
  case (level_root s n b)
  from hier_eqD[OF level_root(3) level_root(1)] level_root(2) show ?case
    by (auto intro: level.level_root)
next
  case (level_child s n b p k)
  from hier_eqD[OF level_child(5) level_child(1)] level_child(2)
  obtain b' where "s' n = Some b'" "parent b' = Some p" by auto
  then show ?case using level_child.IH[OF level_child(5)] by (rule level.level_child)
qed

lemma frame_dom: "frame s' = frame s \<Longrightarrow> dom s' = dom s"
  by (rule hier_dom) (rule frame_hier)

lemma child_rel_frame: "frame s' = frame s \<Longrightarrow> child_rel s' = child_rel s"
  by (rule child_rel_hier) (rule frame_hier)

lemma subtree_frame: "frame s' = frame s \<Longrightarrow> subtree s' p = subtree s p"
  by (rule subtree_hier) (rule frame_hier)

lemma wf_bones_frame: "frame s' = frame s \<Longrightarrow> wf_bones s \<Longrightarrow> wf_bones s'"
  by (rule wf_bones_hier[OF frame_hier])

lemma level_frame: "level s n j \<Longrightarrow> frame s' = frame s \<Longrightarrow> level s' n j"
  by (erule level_hier) (rule frame_hier)

subsection \<open>Levels\<close>

lemma level_fun: "level s n j \<Longrightarrow> level s n k \<Longrightarrow> j = k"
proof (induction arbitrary: k rule: level.induct)
  case (level_root s n b)
  have "level s n k" by fact
  then show ?case
    by (rule level.cases) (use level_root(1,2) in auto)
next
  case (level_child s n b p j)
  have "level s n k" by fact
  then show ?case
    by (rule level.cases) (use level_child(1,2) level_child.IH in auto)
qed

lemma level_step:
  assumes "wf_bones s" "(n, c) \<in> child_rel s" "level s n j"
  shows "level s c (Suc j)"
proof -
  from assms(2) obtain b where "s n = Some b" "c \<in> set (children b)"
    by (auto simp: child_rel_def)
  with wf_childD[OF assms(1)] obtain cb where "s c = Some cb" "parent cb = Some n"
    by blast
  then show ?thesis using assms(3) by (rule level_child)
qed

lemma level_subtree:
  assumes "wf_bones s" "level s n j" "(n, m) \<in> (child_rel s)\<^sup>*"
  shows "\<exists>k\<ge>j. level s m k"
  using assms(3)
proof (induction rule: rtrancl_induct)
  case base
  then show ?case using assms(2) by blast
next
  case (step y z)
  then obtain k where "k \<ge> j" "level s y k" by blast
  with level_step[OF assms(1) step(2)] show ?case by (meson le_SucI)
qed

lemma level_descendant:
  assumes "wf_bones s" "level s n j" "(n, m) \<in> (child_rel s)\<^sup>+"
  shows "\<exists>k>j. level s m k"
proof -
  from assms(3) obtain c where c: "(n, c) \<in> child_rel s" "(c, m) \<in> (child_rel s)\<^sup>*"
    by (meson tranclD)
  from level_subtree[OF assms(1) level_step[OF assms(1) c(1) assms(2)] c(2)]
  show ?thesis by (meson Suc_le_lessD)
qed

lemma not_own_descendant:
  assumes "wf_bones s" "level s n j"
  shows "(n, n) \<notin> (child_rel s)\<^sup>+"
proof
  assume "(n, n) \<in> (child_rel s)\<^sup>+"
  from level_descendant[OF assms this] obtain k where "k > j" "level s n k" by blast
  with level_fun[OF assms(2)] show False by blast
qed

lemma parent_not_in_subtree:
  assumes "wf_bones s" "level s n j" "s n = Some b" "parent b = Some p"
  shows "(n, p) \<notin> (child_rel s)\<^sup>*"
proof
  assume a: "(n, p) \<in> (child_rel s)\<^sup>*"
  from wf_parentD[OF assms(1,3,4)] obtain pb where "s p = Some pb" "n \<in> set (children pb)"
    by blast
  then have "(p, n) \<in> child_rel s" by (auto simp: child_rel_def)
  with a have "(n, n) \<in> (child_rel s)\<^sup>+" by (rule rtrancl_into_trancl1)
  with not_own_descendant[OF assms(1,2)] show False by blast
qed

lemma level_chain:
  "level s n j \<Longrightarrow> \<exists>f. \<forall>i\<le>j. f i \<in> dom s \<and> level s (f i) i"
proof (induction rule: level.induct)
  case (level_root s n b)
  then have "n \<in> dom s \<and> level s n 0"
    by (auto intro: level.level_root)
  then show ?case by (intro exI[of _ "\<lambda>_. n"]) simp
next
  case (level_child s n b p k)
  from level_child.IH obtain f where f: "\<forall>i\<le>k. f i \<in> dom s \<and> level s (f i) i" ..
  have n: "n \<in> dom s" "level s n (Suc k)"
    using level_child(1,2,3) by (auto intro: level.level_child)
  show ?case
    by (intro exI[of _ "f(Suc k := n)"]) (use f n in \<open>auto simp: le_Suc_eq\<close>)
qed

lemma level_bound:
  assumes "finite (dom s)" "level s n j"
  shows "j < card (dom s)"
proof -
  from level_chain[OF assms(2)] obtain f where f: "\<forall>i\<le>j. f i \<in> dom s \<and> level s (f i) i" ..
  have "inj_on f {..j}"
  proof (rule inj_onI)
    fix a b assume "a \<in> {..j}" "b \<in> {..j}" "f a = f b"
    with f have "level s (f a) a" "level s (f a) b" by auto
    then show "a = b" by (rule level_fun)
  qed
  moreover have "f ` {..j} \<subseteq> dom s" using f by auto
  ultimately have "card {..j} \<le> card (dom s)"
    using assms(1) by (metis card_image card_mono)
  then show ?thesis by simp
qed

subsection \<open>The traversal returns, and what it leaves behind\<close>

lemma level_SomeD: "level s n j \<Longrightarrow> \<exists>b. s n = Some b"
  by (erule level.cases) auto

lemma child_relI: "s n = Some b \<Longrightarrow> c \<in> set (children b) \<Longrightarrow> (n, c) \<in> child_rel s"
  by (auto simp: child_rel_def)

lemma updateWorldTransform_returns:
  "wf_bones s \<Longrightarrow> level s n j \<Longrightarrow> card (dom s) \<le> j + d \<Longrightarrow> \<exists>s'. updateWorldTransform d n s = Some s'"
proof (induction d arbitrary: n s j)
  case 0
  from level_bound[OF _ 0(2)] 0(1,3) show ?case by (simp add: wf_bones_def)
next
  case (Suc d)
  from level_SomeD[OF Suc.prems(2)] obtain b where b: "s n = Some b" ..
  have loop: "\<exists>s'. forEach (\<lambda>child s'. updateWorldTransform d child s') (children b) (s(n \<mapsto> setWorld par b)) = Some s'"
    for par
  proof (rule forEach_total[where P = "\<lambda>t. frame t = frame s"])
    show "frame (s(n \<mapsto> setWorld par b)) = frame s" using b by (rule frame_upd_setWorld)
  next
    fix c s1 assume c: "c \<in> set (children b)" and f1: "frame s1 = frame s"
    have w1: "wf_bones s1" using f1 Suc.prems(1) by (rule wf_bones_frame)
    have "level s c (Suc j)"
      using Suc.prems(1) child_relI[of s n b c, OF b c] Suc.prems(2) by (rule level_step)
    then have l1: "level s1 c (Suc j)" using f1 by (rule level_frame)
    have "card (dom s1) \<le> Suc j + d" using Suc.prems(3) frame_dom[OF f1] by simp
    from Suc.IH[OF w1 l1 this] obtain s2 where s2: "updateWorldTransform d c s1 = Some s2" ..
    from updateWorldTransform_frame[OF s2] f1 have "frame s2 = frame s" by simp
    with s2 show "\<exists>s2. updateWorldTransform d c s1 = Some s2 \<and> frame s2 = frame s" by blast
  qed
  show ?case
  proof (cases "parent b")
    case None
    with b loop[of None] show ?thesis by simp
  next
    case (Some p)
    from wf_parentD[OF Suc.prems(1) b Some] obtain pb where "s p = Some pb" by blast
    with b Some loop[of "Some pb"] show ?thesis by simp
  qed
qed

lemma world_ok_cong:
  assumes "s2 m = s1 m" "\<And>b p. s1 m = Some b \<Longrightarrow> parent b = Some p \<Longrightarrow> s2 p = s1 p"
  shows "world_ok s2 m = world_ok s1 m"
proof (cases "s1 m")
  case None
  with assms(1) show ?thesis by (simp add: world_ok_def)
next
  case (Some b)
  show ?thesis
  proof (cases "parent b")
    case None
    with Some assms(1) show ?thesis by (simp add: world_ok_def)
  next
    case p: (Some p)
    from assms(2)[OF Some p] Some p assms(1) show ?thesis by (simp add: world_ok_def)
  qed
qed

lemma subtree_unfold:
  assumes "s n = Some b"
  shows "subtree s n = insert n (\<Union>c\<in>set (children b). subtree s c)"
proof (rule set_eqI)
  fix m
  have "(n, m) \<in> (child_rel s)\<^sup>* \<longleftrightarrow> m = n \<or> (\<exists>c. (n, c) \<in> child_rel s \<and> (c, m) \<in> (child_rel s)\<^sup>*)"
    by (metis converse_rtranclE converse_rtrancl_into_rtrancl rtrancl.rtrancl_refl)
  moreover have "(n, c) \<in> child_rel s \<longleftrightarrow> c \<in> set (children b)" for c
    using assms by (simp add: child_rel_def)
  ultimately show "m \<in> subtree s n \<longleftrightarrow> m \<in> insert n (\<Union>c\<in>set (children b). subtree s c)"
    by (auto simp: subtree_def)
qed

lemma world_ok_setWorld_root:
  "s n = Some (setWorld None b) \<Longrightarrow> parent b = None \<Longrightarrow> world_ok s n"
  by (simp add: world_ok_def setWorld_def)

lemma world_ok_setWorld_child:
  "s n = Some (setWorld (Some pb) b) \<Longrightarrow> parent b = Some p \<Longrightarrow> s p = Some pb \<Longrightarrow> world_ok s n"
  by (simp add: world_ok_def setWorld_def Let_def algebra_simps)


lemma loop_effect:
  assumes IH: "\<forall>c t k t'. wf_bones t \<longrightarrow> level t c k \<longrightarrow> updateWorldTransform d c t = Some t' \<longrightarrow>
      (\<forall>m. m \<notin> subtree t c \<longrightarrow> t' m = t m) \<and> (\<forall>m\<in>subtree t c. world_ok t' m)"
    and wf: "wf_bones s0"
    and lev: "\<forall>c\<in>set cs. \<exists>k. level s0 c k"
    and loop: "forEach (\<lambda>child s'. updateWorldTransform d child s') cs s0 = Some s'"
  shows "frame s' = frame s0 \<and> (\<forall>m. m \<notin> (\<Union>c\<in>set cs. subtree s0 c) \<longrightarrow> s' m = s0 m)
     \<and> (\<forall>m\<in>(\<Union>c\<in>set cs. subtree s0 c). world_ok s' m)"
proof -
  define U where "U D = (\<Union>c\<in>D. subtree s0 c)" for D
  define I where "I D t \<longleftrightarrow> frame t = frame s0 \<and> (\<forall>m. m \<notin> U D \<longrightarrow> t m = s0 m) \<and> (\<forall>m\<in>U D. world_ok t m)"
    for D t
  have I0: "I {} s0" by (simp add: I_def U_def)
  have step: "I (insert c D) s2"
    if c: "c \<in> set cs" and I1: "I D s1" and upd: "updateWorldTransform d c s1 = Some s2"
    for c D s1 s2
  proof -
    from I1 have f1: "frame s1 = frame s0" by (simp add: I_def)
    have w1: "wf_bones s1" using f1 wf by (rule wf_bones_frame)
    from lev c obtain k where "level s0 c k" by blast
    then have l1: "level s1 c k" using f1 by (rule level_frame)
    have st: "subtree s1 c = subtree s0 c" using f1 by (rule subtree_frame)
    from IH[rule_format, OF w1 l1 upd] st
    have out: "\<And>m. m \<notin> subtree s0 c \<Longrightarrow> s2 m = s1 m" and inn: "\<And>m. m \<in> subtree s0 c \<Longrightarrow> world_ok s2 m"
      by auto
    have f2: "frame s2 = frame s0" using updateWorldTransform_frame[OF upd] f1 by simp
    have U: "U (insert c D) = subtree s0 c \<union> U D" by (auto simp: U_def)
    have a: "s2 m = s0 m" if "m \<notin> U (insert c D)" for m
      using that out[of m] I1 by (simp add: U I_def)
    have b': "world_ok s2 m" if m: "m \<in> U (insert c D)" for m
    proof (cases "m \<in> subtree s0 c")
      case True
      then show ?thesis by (rule inn)
    next
      case False
      with m have "m \<in> U D" by (simp add: U)
      with I1 have ok1: "world_ok s1 m" by (simp add: I_def)
      have "world_ok s2 m = world_ok s1 m"
      proof (rule world_ok_cong)
        show "s2 m = s1 m" using False by (rule out)
      next
        fix bm p assume bm: "s1 m = Some bm" "parent bm = Some p"
        from wf_parentD[OF w1 bm] obtain pb where pb: "s1 p = Some pb" "m \<in> set (children pb)"
          by blast
        have "(p, m) \<in> child_rel s0"
          using child_relI[of s1 p pb m, OF pb] child_rel_frame[OF f1] by simp
        then have "p \<notin> subtree s0 c"
          using False by (auto simp: subtree_def intro: rtrancl_into_rtrancl)
        then show "s2 p = s1 p" by (rule out)
      qed
      with ok1 show ?thesis by simp
    qed
    show ?thesis unfolding I_def using f2 a b' by blast
  qed
  have "I ({} \<union> set cs) s'"
  proof (rule forEach_visited[where I = I, OF loop I0])
    fix c D s1 s2
    assume "c \<in> set cs" "I D s1" "updateWorldTransform d c s1 = Some s2"
    then show "I (insert c D) s2" by (rule step)
  qed
  then show ?thesis by (simp add: I_def U_def)
qed

lemma updateWorldTransform_effect:
  "wf_bones s \<Longrightarrow> level s n j \<Longrightarrow> updateWorldTransform d n s = Some s' \<Longrightarrow>
     (\<forall>m. m \<notin> subtree s n \<longrightarrow> s' m = s m) \<and> (\<forall>m\<in>subtree s n. world_ok s' m)"
proof (induction d arbitrary: n s j s')
  case 0
  then show ?case by simp
next
  case (Suc d)
  note wf = Suc.prems(1) and lev = Suc.prems(2)
  from level_SomeD[OF lev] obtain b where b: "s n = Some b" ..
  define par where "par = (case parent b of None \<Rightarrow> None | Some p \<Rightarrow> s p)"
  define s0 where "s0 = s(n \<mapsto> setWorld par b)"
  define U where "U = (\<Union>c\<in>set (children b). subtree s c)"
  have loop: "forEach (\<lambda>child s'. updateWorldTransform d child s') (children b) s0 = Some s'"
    using Suc.prems(3) b by (auto simp: par_def s0_def split: option.splits)
  have f0: "frame s0 = frame s" unfolding s0_def using b by (rule frame_upd_setWorld)
  have w0: "wf_bones s0" using f0 wf by (rule wf_bones_frame)
  have l0: "\<forall>c\<in>set (children b). \<exists>k. level s0 c k"
  proof
    fix c assume c: "c \<in> set (children b)"
    have "level s c (Suc j)"
      using wf child_relI[of s n b c, OF b c] lev by (rule level_step)
    then have "level s0 c (Suc j)" using f0 by (rule level_frame)
    then show "\<exists>k. level s0 c k" ..
  qed
  have UU: "(\<Union>c\<in>set (children b). subtree s0 c) = U"
    unfolding U_def by (simp only: subtree_frame[OF f0])
  have eff: "\<forall>c t k t'. wf_bones t \<longrightarrow> level t c k \<longrightarrow> updateWorldTransform d c t = Some t' \<longrightarrow>
      (\<forall>m. m \<notin> subtree t c \<longrightarrow> t' m = t m) \<and> (\<forall>m\<in>subtree t c. world_ok t' m)"
    by (intro allI impI) (rule Suc.IH)
  note le = loop_effect[OF eff w0 l0 loop, unfolded UU]
  have fin: "\<And>m. m \<notin> U \<Longrightarrow> s' m = s0 m" "\<And>m. m \<in> U \<Longrightarrow> world_ok s' m"
    using le by blast+
  have sub: "subtree s n = insert n U"
    unfolding U_def using b by (rule subtree_unfold)
  have n_out: "n \<notin> U"
  proof
    assume "n \<in> U"
    then obtain c where c: "c \<in> set (children b)" "(c, n) \<in> (child_rel s)\<^sup>*"
      by (auto simp: U_def subtree_def)
    from child_relI[of s n b c, OF b c(1)] c(2) have "(n, n) \<in> (child_rel s)\<^sup>+"
      by (rule rtrancl_into_trancl2)
    with not_own_descendant[OF wf lev] show False by blast
  qed
  have n': "s' n = Some (setWorld par b)" using fin(1)[OF n_out] by (simp add: s0_def)
  have okn: "world_ok s' n"
  proof (cases "parent b")
    case None
    then have "par = None" by (simp add: par_def)
    with n' None show ?thesis by (simp add: world_ok_setWorld_root)
  next
    case (Some p)
    from wf_parentD[OF wf b Some] obtain pb where pb: "s p = Some pb" by blast
    have pn: "p \<notin> subtree s n"
      using parent_not_in_subtree[OF wf lev b Some] by (simp add: subtree_def)
    then have "p \<noteq> n" "p \<notin> U" by (auto simp: sub)
    with fin(1)[of p] pb have "s' p = Some pb" by (simp add: s0_def)
    moreover have "par = Some pb" using Some pb by (simp add: par_def)
    ultimately show ?thesis using n' Some by (simp add: world_ok_setWorld_child)
  qed
  have "s' m = s m" if "m \<notin> subtree s n" for m
    using that fin(1)[of m] by (simp add: sub s0_def)
  moreover have "world_ok s' m" if "m \<in> subtree s n" for m
    using that okn fin(2)[of m] by (auto simp: sub)
  ultimately show ?case by blast
qed

lemma root_level: "wf_skeleton sk \<Longrightarrow> r \<in> set (rootBones sk) \<Longrightarrow> level (bones sk) r 0"
  by (auto simp: wf_skeleton_def intro: level_root)

lemma updateTransforms_effect:
  assumes wf: "wf_skeleton sk" and fuel: "card (dom (bones sk)) \<le> depth"
  shows "\<exists>sk'. updateTransforms depth sk = Some sk' \<and> rootBones sk' = rootBones sk
     \<and> frame (bones sk') = frame (bones sk)
     \<and> (\<forall>m. m \<notin> reachable sk \<longrightarrow> bones sk' m = bones sk m)
     \<and> (\<forall>m\<in>reachable sk. world_ok (bones sk') m)"
proof -
  let ?s = "bones sk"
  from wf have wb: "wf_bones ?s" by (simp add: wf_skeleton_def)
  have "\<exists>s'. forEach (\<lambda>root s. updateWorldTransform depth root s) (rootBones sk) ?s = Some s'"
  proof (rule forEach_total[where P = "\<lambda>t. frame t = frame ?s"])
    show "frame ?s = frame ?s" ..
  next
    fix r s1 assume r: "r \<in> set (rootBones sk)" and f1: "frame s1 = frame ?s"
    have w1: "wf_bones s1" using f1 wb by (rule wf_bones_frame)
    have l1: "level s1 r 0" using root_level[OF wf r] f1 by (rule level_frame)
    have "card (dom s1) \<le> 0 + depth" using fuel frame_dom[OF f1] by simp
    from updateWorldTransform_returns[OF w1 l1 this]
    obtain s2 where s2: "updateWorldTransform depth r s1 = Some s2" ..
    from updateWorldTransform_frame[OF s2] f1 have "frame s2 = frame ?s" by simp
    with s2 show "\<exists>s2. updateWorldTransform depth r s1 = Some s2 \<and> frame s2 = frame ?s" by blast
  qed
  then obtain s' where loop: "forEach (\<lambda>root s. updateWorldTransform depth root s) (rootBones sk) ?s = Some s'" ..
  have lev: "\<forall>r\<in>set (rootBones sk). \<exists>k. level ?s r k"
    using root_level[OF wf] by blast
  have eff: "\<forall>c t k t'. wf_bones t \<longrightarrow> level t c k \<longrightarrow> updateWorldTransform depth c t = Some t' \<longrightarrow>
      (\<forall>m. m \<notin> subtree t c \<longrightarrow> t' m = t m) \<and> (\<forall>m\<in>subtree t c. world_ok t' m)"
    by (intro allI impI) (rule updateWorldTransform_effect)
  from loop_effect[OF eff wb lev loop]
  have "frame s' = frame ?s \<and> (\<forall>m. m \<notin> reachable sk \<longrightarrow> s' m = ?s m)
     \<and> (\<forall>m\<in>reachable sk. world_ok s' m)"
    by (simp add: reachable_def)
  with loop show ?thesis by (simp add: updateTransforms_def)
qed

section \<open>The contract of the world transform\<close>

subsection \<open>The sample skeleton\<close>

lemma sample_lookup:
  "sampleBones ''spine'' = Some spineBone" "sampleBones ''arm'' = Some armBone"
  "sampleBones ''hand'' = Some handBone" "sampleBones ''limb'' = Some limbBone"
  "sampleBones ''tip'' = Some tipBone"
  by (simp_all add: sampleBones_def)

lemma sample_cases:
  "sampleBones n = Some b \<Longrightarrow>
     (n = ''spine'' \<and> b = spineBone) \<or> (n = ''arm'' \<and> b = armBone) \<or> (n = ''hand'' \<and> b = handBone)
     \<or> (n = ''limb'' \<and> b = limbBone) \<or> (n = ''tip'' \<and> b = tipBone)"
  by (auto simp: sampleBones_def split: if_splits)

lemma sample_dom: "dom sampleBones = {''spine'', ''arm'', ''hand'', ''limb'', ''tip''}"
  by (auto simp: sampleBones_def)

lemma sample_card: "card (dom sampleBones) = 5"
  by (simp add: sample_dom)

lemma sample_wf_bones: "wf_bones sampleBones"
  unfolding wf_bones_def
proof (intro conjI allI impI)
  show "finite (dom sampleBones)" by (simp add: sample_dom)
next
  fix n b c assume "sampleBones n = Some b \<and> c \<in> set (children b)"
  then show "\<exists>cb. sampleBones c = Some cb \<and> parent cb = Some n"
    using sample_cases[of n b]
    by (auto simp: sample_lookup spineBone_def armBone_def handBone_def limbBone_def tipBone_def)
next
  fix n b p assume "sampleBones n = Some b \<and> parent b = Some p"
  then show "\<exists>pb. sampleBones p = Some pb \<and> n \<in> set (children pb)"
    using sample_cases[of n b]
    by (auto simp: sample_lookup spineBone_def armBone_def handBone_def limbBone_def tipBone_def)
qed

lemma sample_wf: "wf_skeleton sampleSkeleton"
  by (simp add: wf_skeleton_def sampleSkeleton_def sample_wf_bones sample_lookup spineBone_def)

lemma sample_level: "level sampleBones ''spine'' 0"
  by (rule level_root[of sampleBones "''spine''" spineBone]) (simp_all add: sample_lookup spineBone_def)

lemma sample_child_rel:
  "(''spine'', ''arm'') \<in> child_rel sampleBones" "(''arm'', ''hand'') \<in> child_rel sampleBones"
  "(''limb'', ''tip'') \<in> child_rel sampleBones"
  by (auto simp: child_rel_def sample_lookup spineBone_def armBone_def limbBone_def)

text \<open>
  Claim C1. On a skeleton's bone store, for a bone whose chain of parents ends at a bone
  with no parent, and with a call stack deep enough for the hierarchy below it,
  \<open>updateWorldTransform\<close> returns; it changes no local transform, no bone outside the
  subtree of the bone it is called on, and in particular not that bone's parent. After
  it, the bone and every descendant with a parent hold
  \<open>worldRotation = parent.worldRotation + local.rotation\<close>,
  \<open>worldX = parent.worldX + local.x * cos - local.y * sin\<close> and
  \<open>worldY = parent.worldY + local.x * sin + local.y * cos\<close> of the parent's world rotation in
  radians, and those without a parent hold their local \<open>x\<close>, \<open>y\<close> and \<open>rotation\<close>
  (\<open>world_ok\<close>).
\<close>

theorem updateWorldTransform_contract:
  assumes "wf_bones s" and "level s this j" and "card (dom s) \<le> j + depth"
  shows "\<exists>s'. updateWorldTransform depth this s = Some s' \<and> frame s' = frame s
     \<and> (\<forall>m. m \<notin> subtree s this \<longrightarrow> s' m = s m)
     \<and> (\<forall>b p. s this = Some b \<and> parent b = Some p \<longrightarrow> s' p = s p)
     \<and> (\<forall>m\<in>subtree s this. world_ok s' m)"
proof -
  from updateWorldTransform_returns[OF assms] obtain s' where
    s': "updateWorldTransform depth this s = Some s'" ..
  note eff = updateWorldTransform_effect[OF assms(1,2) s']
  have "s' p = s p" if "s this = Some b" "parent b = Some p" for b p
  proof -
    from parent_not_in_subtree[OF assms(1,2) that] have "p \<notin> subtree s this"
      by (simp add: subtree_def)
    with eff show ?thesis by blast
  qed
  with s' updateWorldTransform_frame[OF s'] eff show ?thesis by blast
qed

text \<open>On the sample skeleton, called on the root \<open>spine\<close> (local position (10, 20), rotation
  90): \<open>arm\<close>, at local (5, 0) with rotation 30, ends at (10, 25) with rotation 120, and
  \<open>tip\<close>, outside the subtree, is untouched.\<close>

theorem updateWorldTransform_contract_witness:
  "wf_bones sampleBones \<and> level sampleBones ''spine'' 0 \<and> card (dom sampleBones) \<le> 0 + 5 \<and>
   (\<exists>s' sp ar. updateWorldTransform 5 ''spine'' sampleBones = Some s' \<and>
      s' ''spine'' = Some sp \<and> worldX sp = 10 \<and> worldY sp = 20 \<and> worldRotation sp = 90 \<and>
      s' ''arm'' = Some ar \<and> worldX ar = 10 \<and> worldY ar = 25 \<and> worldRotation ar = 120 \<and>
      s' ''tip'' = Some tipBone)"
proof -
  have c: "card (dom sampleBones) \<le> 0 + 5" by (simp add: sample_card)
  from updateWorldTransform_contract[OF sample_wf_bones sample_level c]
  obtain s' where s': "updateWorldTransform 5 ''spine'' sampleBones = Some s'"
    and fr: "frame s' = frame sampleBones"
    and out: "\<forall>m. m \<notin> subtree sampleBones ''spine'' \<longrightarrow> s' m = sampleBones m"
    and ok: "\<forall>m\<in>subtree sampleBones ''spine''. world_ok s' m"
    by blast
  have in1: "''spine'' \<in> subtree sampleBones ''spine''" by (simp add: subtree_def)
  have in2: "''arm'' \<in> subtree sampleBones ''spine''"
    using sample_child_rel(1) by (auto simp: subtree_def)
  from frame_eqD[OF fr sample_lookup(1)] obtain sp where
    sp: "s' ''spine'' = Some sp" "parent sp = None" "localTransform sp = localTransform spineBone"
    by (auto simp: spineBone_def)
  from frame_eqD[OF fr sample_lookup(2)] obtain ar where
    ar: "s' ''arm'' = Some ar" "parent ar = Some ''spine''" "localTransform ar = localTransform armBone"
    by (auto simp: armBone_def)
  from ok in1 sp have w1: "worldX sp = 10 \<and> worldY sp = 20 \<and> worldRotation sp = 90"
    by (auto simp: world_ok_def spineBone_def)
  from ok in2 have "world_ok s' ''arm''" by blast
  with sp ar w1 have w2: "worldX ar = 10 \<and> worldY ar = 25 \<and> worldRotation ar = 120"
    by (simp add: world_ok_def armBone_def)
  have "''tip'' \<notin> subtree sampleBones ''spine''"
  proof
    assume "''tip'' \<in> subtree sampleBones ''spine''"
    then have "(''spine'', ''tip'') \<in> (child_rel sampleBones)\<^sup>*" by (simp add: subtree_def)
    moreover have "(a, b) \<in> (child_rel sampleBones)\<^sup>* \<Longrightarrow> a \<in> {''spine'', ''arm'', ''hand''}
        \<Longrightarrow> b \<in> {''spine'', ''arm'', ''hand''}" for a b
      by (induction rule: rtrancl_induct)
         (auto simp: child_rel_def sample_lookup spineBone_def armBone_def handBone_def)
    ultimately show False by fastforce
  qed
  with out have "s' ''tip'' = Some tipBone" by (simp add: sample_lookup)
  with s' sp ar w1 w2 sample_wf_bones sample_level c show ?thesis by blast
qed

section \<open>Applying a pose to a skeleton\<close>


lemma applyData_keeps:
  "parent (applyData d b) = parent b" "children (applyData d b) = children b"
  "bindTransform (applyData d b) = bindTransform b"
  by (simp_all add: applyData_def Let_def setRotation_def split: option.splits)

lemma applyData_channels:
  "d_rotation d = None \<Longrightarrow> rotation (localTransform (applyData d b)) = rotation (localTransform b)"
  "d_x d = None \<Longrightarrow> tr_x (localTransform (applyData d b)) = tr_x (localTransform b)"
  "d_y d = None \<Longrightarrow> tr_y (localTransform (applyData d b)) = tr_y (localTransform b)"
  "d_scaleX d = None \<Longrightarrow> scaleX (localTransform (applyData d b)) = scaleX (localTransform b)"
  "d_scaleY d = None \<Longrightarrow> scaleY (localTransform (applyData d b)) = scaleY (localTransform b)"
  by (simp_all add: applyData_def Let_def setRotation_def split: option.splits)

lemma foldl_applyEntry_lookup:
  "foldl applyEntry s es n =
     map_option (\<lambda>b. foldl (\<lambda>b d. applyData d b) b (map snd (filter (\<lambda>e. fst e = n) es))) (s n)"
proof (induction es arbitrary: s)
  case Nil
  show ?case by (simp add: option.map_ident)
next
  case (Cons e es)
  show ?case
    unfolding foldl_Cons Cons.IH
    by (cases "s (fst e)"; cases "s n") (auto simp: applyEntry_def Let_def)
qed

lemma foldl_applyData_keeps:
  "parent (foldl (\<lambda>b d. applyData d b) b ds) = parent b"
  "children (foldl (\<lambda>b d. applyData d b) b ds) = children b"
  "bindTransform (foldl (\<lambda>b d. applyData d b) b ds) = bindTransform b"
  by (induction ds arbitrary: b) (simp_all add: applyData_keeps)

lemma foldl_applyData_channel:
  assumes "\<And>d b. f d = None \<Longrightarrow> g (localTransform (applyData d b)) = g (localTransform b)"
    and "\<forall>d\<in>set ds. f d = None"
  shows "g (localTransform (foldl (\<lambda>b d. applyData d b) b ds)) = g (localTransform b)"
  using assms(2) by (induction ds arbitrary: b) (simp_all add: assms(1))

lemma hier_foldl_applyEntry: "hier (foldl applyEntry s es) = hier s"
  by (rule ext) (simp add: hier_def foldl_applyEntry_lookup option.map_comp comp_def foldl_applyData_keeps)

lemma wf_skeleton_bones_upd:
  assumes "wf_skeleton sk" "hier s' = hier (bones sk)"
  shows "wf_skeleton (sk\<lparr> bones := s' \<rparr>)"
  unfolding wf_skeleton_def
proof (intro conjI ballI)
  show "wf_bones (bones (sk\<lparr> bones := s' \<rparr>))"
    using wf_bones_hier[OF assms(2)] assms(1) by (simp add: wf_skeleton_def)
next
  fix r assume "r \<in> set (rootBones (sk\<lparr> bones := s' \<rparr>))"
  with assms(1) obtain b where "bones sk r = Some b" "parent b = None"
    by (auto simp: wf_skeleton_def)
  from hier_eqD[OF assms(2) this(1)] this(2)
  show "\<exists>b. bones (sk\<lparr> bones := s' \<rparr>) r = Some b \<and> parent b = None" by auto
qed

text \<open>
  Claim C9. On a skeleton as \<open>loadFromData\<close> builds it, with a call stack deep enough for
  its hierarchy, \<open>Pose.applyTo\<close> returns, and for every bone of the skeleton and each of
  the channels rotation, x, y, scaleX and scaleY: if no entry of the pose for that bone
  holds the channel, the channel of the bone's local transform is what it was. A bone
  that the pose does not name keeps its whole local transform.
\<close>

theorem applyTo_untouched_channels:
  assumes "wf_skeleton sk" and "card (dom (bones sk)) \<le> depth" and "bones sk n = Some b"
  shows "\<exists>sk' b'. applyTo depth ps sk = Some sk' \<and> bones sk' n = Some b' \<and>
     ((\<forall>d. (n, d) \<in> set (boneTransforms ps) \<longrightarrow> d_rotation d = None) \<longrightarrow>
         rotation (localTransform b') = rotation (localTransform b)) \<and>
     ((\<forall>d. (n, d) \<in> set (boneTransforms ps) \<longrightarrow> d_x d = None) \<longrightarrow>
         tr_x (localTransform b') = tr_x (localTransform b)) \<and>
     ((\<forall>d. (n, d) \<in> set (boneTransforms ps) \<longrightarrow> d_y d = None) \<longrightarrow>
         tr_y (localTransform b') = tr_y (localTransform b)) \<and>
     ((\<forall>d. (n, d) \<in> set (boneTransforms ps) \<longrightarrow> d_scaleX d = None) \<longrightarrow>
         scaleX (localTransform b') = scaleX (localTransform b)) \<and>
     ((\<forall>d. (n, d) \<in> set (boneTransforms ps) \<longrightarrow> d_scaleY d = None) \<longrightarrow>
         scaleY (localTransform b') = scaleY (localTransform b)) \<and>
     (n \<notin> fst ` set (boneTransforms ps) \<longrightarrow> localTransform b' = localTransform b)"
proof -
  let ?es = "boneTransforms ps"
  let ?s1 = "foldl applyEntry (bones sk) ?es"
  let ?sk1 = "sk\<lparr> bones := ?s1 \<rparr>"
  let ?ds = "map snd (filter (\<lambda>e. fst e = n) ?es)"
  define b1 where "b1 = foldl (\<lambda>b d. applyData d b) b ?ds"
  have h: "hier ?s1 = hier (bones sk)" by (rule hier_foldl_applyEntry)
  have wf1: "wf_skeleton ?sk1" using assms(1) h by (rule wf_skeleton_bones_upd)
  have "card (dom (bones ?sk1)) \<le> depth" using assms(2) hier_dom[OF h] by simp
  from updateTransforms_effect[OF wf1 this] obtain sk' where
    sk': "updateTransforms depth ?sk1 = Some sk'" and fr: "frame (bones sk') = frame ?s1"
    by auto
  have s1n: "?s1 n = Some b1" by (simp add: foldl_applyEntry_lookup assms(3) b1_def)
  from frame_eqD[OF fr s1n] obtain b' where
    b': "bones sk' n = Some b'" "localTransform b' = localTransform b1" by blast
  have ds: "d \<in> set ?ds \<longleftrightarrow> (n, d) \<in> set ?es" for d by force
  have ch: "g (localTransform b') = g (localTransform b)"
    if "\<And>d b. f d = None \<Longrightarrow> g (localTransform (applyData d b)) = g (localTransform b)"
      and "\<forall>d. (n, d) \<in> set ?es \<longrightarrow> f d = None" for f :: "boneTransformData \<Rightarrow> real option" and g :: "transform \<Rightarrow> real"
    unfolding b'(2) b1_def
    by (rule foldl_applyData_channel[where f = f]) (use that ds in auto)
  have none: "localTransform b' = localTransform b" if "n \<notin> fst ` set ?es"
  proof -
    from that have "?ds = []" by (auto simp: filter_empty_conv)
    then show ?thesis by (simp add: b'(2) b1_def)
  qed
  have "applyTo depth ps sk = Some sk'" using sk' by (simp add: applyTo_def)
  with b'(1) ch[of d_rotation rotation] ch[of d_x tr_x] ch[of d_y tr_y] ch[of d_scaleX scaleX]
    ch[of d_scaleY scaleY] none applyData_channels
  show ?thesis by blast
qed

text \<open>The sample pose \<open>a\<close> names only \<open>arm\<close>, with rotation and x: y and the scales of
  \<open>arm\<close> and the local transform of \<open>hand\<close> stay.\<close>

theorem applyTo_untouched_channels_witness:
  "wf_skeleton sampleSkeleton \<and> card (dom (bones sampleSkeleton)) \<le> 5 \<and>
   bones sampleSkeleton ''arm'' = Some armBone \<and> bones sampleSkeleton ''hand'' = Some handBone \<and>
   boneTransforms poseA = [(''arm'',
       \<lparr> d_rotation = Some 0, d_x = Some 3, d_y = None, d_scaleX = None, d_scaleY = None \<rparr>)] \<and>
   (\<exists>sk' ar ha. applyTo 5 poseA sampleSkeleton = Some sk' \<and>
      bones sk' ''arm'' = Some ar \<and> tr_y (localTransform ar) = 0 \<and>
      scaleX (localTransform ar) = 1 \<and> scaleY (localTransform ar) = 1 \<and>
      bones sk' ''hand'' = Some ha \<and> localTransform ha = localTransform handBone)"
proof -
  have c: "card (dom (bones sampleSkeleton)) \<le> 5" by (simp add: sampleSkeleton_def sample_card)
  have l: "bones sampleSkeleton ''arm'' = Some armBone" "bones sampleSkeleton ''hand'' = Some handBone"
    by (simp_all add: sampleSkeleton_def sample_lookup)
  have p: "boneTransforms poseA = [(''arm'',
       \<lparr> d_rotation = Some 0, d_x = Some 3, d_y = None, d_scaleX = None, d_scaleY = None \<rparr>)]"
    by (simp add: poseA_def)
  from applyTo_untouched_channels[OF sample_wf c l(1), of poseA]
  obtain sk1 ar where 1: "applyTo 5 poseA sampleSkeleton = Some sk1" "bones sk1 ''arm'' = Some ar"
    "tr_y (localTransform ar) = 0" "scaleX (localTransform ar) = 1" "scaleY (localTransform ar) = 1"
    by (auto simp: p armBone_def)
  from applyTo_untouched_channels[OF sample_wf c l(2), of poseA]
  obtain sk2 ha where 2: "applyTo 5 poseA sampleSkeleton = Some sk2" "bones sk2 ''hand'' = Some ha"
    "localTransform ha = localTransform handBone"
    by (auto simp: p)
  from 1 2 have "sk2 = sk1" by simp
  with 1 2 sample_wf c l p show ?thesis by blast
qed

section \<open>Hierarchy propagation\<close>


lemma rot_compose:
  fixes px py t a lx ly :: real
  assumes "x2 = px + (x1 - px) * cos t - (y1 - py) * sin t"
    and "y2 = py + (x1 - px) * sin t + (y1 - py) * cos t"
  shows "x2 + lx * cos (a + t) - ly * sin (a + t)
      = px + ((x1 + lx * cos a - ly * sin a) - px) * cos t - ((y1 + lx * sin a + ly * cos a) - py) * sin t"
    and "y2 + lx * sin (a + t) + ly * cos (a + t)
      = py + ((x1 + lx * cos a - ly * sin a) - px) * sin t + ((y1 + lx * sin a + ly * cos a) - py) * cos t"
  by (simp_all add: assms cos_add sin_add algebra_simps)

lemma deg_add: "(r + th) * pi / 180 = r * pi / 180 + th * pi / (180::real)"
  by (simp add: algebra_simps add_divide_distrib)

lemma world_okD_root:
  "world_ok s n \<Longrightarrow> s n = Some b \<Longrightarrow> parent b = None \<Longrightarrow>
     worldX b = tr_x (localTransform b) \<and> worldY b = tr_y (localTransform b)
     \<and> worldRotation b = rotation (localTransform b)"
  by (simp add: world_ok_def)

lemma world_okD_child:
  "world_ok s n \<Longrightarrow> s n = Some b \<Longrightarrow> parent b = Some p \<Longrightarrow> s p = Some pb \<Longrightarrow>
     worldRotation b = worldRotation pb + rotation (localTransform b) \<and>
     worldX b = worldX pb + tr_x (localTransform b) * cos (worldRotation pb * pi / 180)
                          - tr_y (localTransform b) * sin (worldRotation pb * pi / 180) \<and>
     worldY b = worldY pb + tr_x (localTransform b) * sin (worldRotation pb * pi / 180)
                          + tr_y (localTransform b) * cos (worldRotation pb * pi / 180)"
  by (simp add: world_ok_def)

lemma reachable_closed:
  "m \<in> reachable sk \<Longrightarrow> (m, c) \<in> (child_rel (bones sk))\<^sup>* \<Longrightarrow> c \<in> reachable sk"
  by (auto simp: reachable_def subtree_def intro: rtrancl_trans)

lemma reachable_level:
  assumes "wf_skeleton sk" "m \<in> reachable sk"
  shows "\<exists>k. level (bones sk) m k"
proof -
  from assms(2) obtain r where r: "r \<in> set (rootBones sk)" "(r, m) \<in> (child_rel (bones sk))\<^sup>*"
    by (auto simp: reachable_def subtree_def)
  from assms(1) have "wf_bones (bones sk)" by (simp add: wf_skeleton_def)
  from level_subtree[OF this root_level[OF assms(1) r(1)] r(2)] show ?thesis by blast
qed

text \<open>Two stores over the same hierarchy whose local transforms agree except that the
  rotation of bone \<open>P\<close> is larger by \<open>th\<close> in the second.\<close>

lemma rotated_worlds:
  assumes wf: "wf_skeleton sk"
    and h1: "hier s1 = hier (bones sk)" and h2: "hier s2 = hier (bones sk)"
    and ok1: "\<forall>m\<in>reachable sk. world_ok s1 m" and ok2: "\<forall>m\<in>reachable sk. world_ok s2 m"
    and loc: "\<forall>m b1 b2. m \<noteq> P \<and> s1 m = Some b1 \<and> s2 m = Some b2 \<longrightarrow> localTransform b2 = localTransform b1"
    and locP: "\<forall>b1 b2. s1 P = Some b1 \<and> s2 P = Some b2 \<longrightarrow>
        tr_x (localTransform b2) = tr_x (localTransform b1) \<and> tr_y (localTransform b2) = tr_y (localTransform b1)
        \<and> rotation (localTransform b2) = rotation (localTransform b1) + th"
    and P: "P \<in> reachable sk" and D: "(P, D) \<in> (child_rel (bones sk))\<^sup>*"
  shows "\<exists>p1 d1 d2. s1 P = Some p1 \<and> s1 D = Some d1 \<and> s2 D = Some d2 \<and>
     worldX d2 = worldX p1 + (worldX d1 - worldX p1) * cos (th * pi / 180)
                           - (worldY d1 - worldY p1) * sin (th * pi / 180) \<and>
     worldY d2 = worldY p1 + (worldX d1 - worldX p1) * sin (th * pi / 180)
                           + (worldY d1 - worldY p1) * cos (th * pi / 180) \<and>
     worldRotation d2 = worldRotation d1 + th"
proof -
  let ?s = "bones sk"
  let ?R = "child_rel ?s"
  from wf have wb: "wf_bones ?s" by (simp add: wf_skeleton_def)
  have wb1: "wf_bones s1" using h1 wb by (rule wf_bones_hier)
  have R1: "child_rel s1 = ?R" using h1 by (rule child_rel_hier)
  have both: "\<exists>b1 b2. s1 m = Some b1 \<and> s2 m = Some b2 \<and> parent b1 = parent b0 \<and> parent b2 = parent b0"
    if "?s m = Some b0" for m b0
    using hier_eqD[OF h1 that] hier_eqD[OF h2 that] by auto
  have inS: "\<exists>b0. ?s m = Some b0" if "m \<in> reachable sk" for m
    using reachable_level[OF wf that] level_SomeD by blast
  txt \<open>bones outside the subtree of P have the same world transform in both stores\<close>
  have same: "\<exists>b1 b2. s1 m = Some b1 \<and> s2 m = Some b2 \<and> worldX b2 = worldX b1
        \<and> worldY b2 = worldY b1 \<and> worldRotation b2 = worldRotation b1"
    if r: "r \<in> set (rootBones sk)" and rm: "(r, m) \<in> ?R\<^sup>*" and out: "(P, m) \<notin> ?R\<^sup>*" for r m
    using rm out
  proof (induction rule: rtrancl_induct)
    case base
    from wf r obtain b0 where b0: "?s r = Some b0" "parent b0 = None" by (auto simp: wf_skeleton_def)
    from both[OF b0(1)] b0(2) obtain b1 b2 where
      b: "s1 r = Some b1" "s2 r = Some b2" "parent b1 = None" "parent b2 = None" by auto
    have rr: "r \<in> reachable sk" using r by (auto simp: reachable_def subtree_def)
    from base have "r \<noteq> P" by auto
    with loc b have l: "localTransform b2 = localTransform b1" by blast
    from world_okD_root[OF ok1[rule_format, OF rr] b(1,3)] world_okD_root[OF ok2[rule_format, OF rr] b(2,4)] l b
    show ?case by simp
  next
    case (step y z)
    have "(P, y) \<notin> ?R\<^sup>*" using step.hyps(2) step.prems by (meson rtrancl_into_rtrancl)
    from step.IH[OF this] obtain y1 y2 where
      y: "s1 y = Some y1" "s2 y = Some y2" "worldX y2 = worldX y1" "worldY y2 = worldY y1"
        "worldRotation y2 = worldRotation y1" by blast
    from step.hyps(2) obtain yb where yb: "?s y = Some yb" "z \<in> set (children yb)"
      by (auto simp: child_rel_def)
    from wf_childD[OF wb yb] obtain z0 where z0: "?s z = Some z0" "parent z0 = Some y" by blast
    from both[OF z0(1)] z0(2) obtain z1 z2 where
      z: "s1 z = Some z1" "s2 z = Some z2" "parent z1 = Some y" "parent z2 = Some y" by auto
    have zr: "z \<in> reachable sk"
      using r step.hyps by (auto simp: reachable_def subtree_def intro: rtrancl_into_rtrancl)
    from step.prems have "z \<noteq> P" by auto
    with loc z have l: "localTransform z2 = localTransform z1" by blast
    from world_okD_child[OF ok1[rule_format, OF zr] z(1,3) y(1)]
      world_okD_child[OF ok2[rule_format, OF zr] z(2,4) y(2)] l y z
    show ?case by simp
  qed
  txt \<open>P keeps its world position and turns by th\<close>
  from inS[OF P] obtain p0 where p0: "?s P = Some p0" ..
  from both[OF p0] obtain p1 p2 where
    p: "s1 P = Some p1" "s2 P = Some p2" "parent p1 = parent p0" "parent p2 = parent p0" by blast
  from locP p have lp: "tr_x (localTransform p2) = tr_x (localTransform p1)"
    "tr_y (localTransform p2) = tr_y (localTransform p1)"
    "rotation (localTransform p2) = rotation (localTransform p1) + th" by blast+
  from reachable_level[OF wf P] obtain k where lev: "level ?s P k" ..
  have Pw: "worldX p2 = worldX p1 \<and> worldY p2 = worldY p1 \<and> worldRotation p2 = worldRotation p1 + th"
  proof (cases "parent p0")
    case None
    with p have "parent p1 = None" "parent p2 = None" by simp_all
    from world_okD_root[OF ok1[rule_format, OF P] p(1) this(1)]
      world_okD_root[OF ok2[rule_format, OF P] p(2) this(2)] lp
    show ?thesis by simp
  next
    case (Some q)
    from P obtain r where r: "r \<in> set (rootBones sk)" "(r, P) \<in> ?R\<^sup>*"
      by (auto simp: reachable_def subtree_def)
    from wf r(1) obtain rb where rb: "?s r = Some rb" "parent rb = None" by (auto simp: wf_skeleton_def)
    with p0 Some have "r \<noteq> P" by auto
    with r(2) obtain y where y: "(r, y) \<in> ?R\<^sup>*" "(y, P) \<in> ?R" by (meson rtranclE)
    from y(2) obtain yb where yb: "?s y = Some yb" "P \<in> set (children yb)"
      by (auto simp: child_rel_def)
    from wf_childD[OF wb yb] p0 Some have "y = q" by auto
    have "(P, q) \<notin> ?R\<^sup>*" by (rule parent_not_in_subtree[OF wb lev p0 Some])
    from same[OF r(1) y(1)[unfolded \<open>y = q\<close>] this] obtain q1 q2 where
      q: "s1 q = Some q1" "s2 q = Some q2" "worldX q2 = worldX q1" "worldY q2 = worldY q1"
        "worldRotation q2 = worldRotation q1" by blast
    from p Some have pp: "parent p1 = Some q" "parent p2 = Some q" by simp_all
    from world_okD_child[OF ok1[rule_format, OF P] p(1) pp(1) q(1)]
      world_okD_child[OF ok2[rule_format, OF P] p(2) pp(2) q(2)] lp q
    show ?thesis by simp
  qed
  txt \<open>down from P\<close>
  have "\<exists>d1 d2. s1 D = Some d1 \<and> s2 D = Some d2 \<and>
     worldX d2 = worldX p1 + (worldX d1 - worldX p1) * cos (th * pi / 180)
                           - (worldY d1 - worldY p1) * sin (th * pi / 180) \<and>
     worldY d2 = worldY p1 + (worldX d1 - worldX p1) * sin (th * pi / 180)
                           + (worldY d1 - worldY p1) * cos (th * pi / 180) \<and>
     worldRotation d2 = worldRotation d1 + th"
    using D
  proof (induction rule: rtrancl_induct)
    case base
    from p Pw show ?case by simp
  next
    case (step y z)
    from step.IH obtain y1 y2 where
      y: "s1 y = Some y1" "s2 y = Some y2"
        "worldX y2 = worldX p1 + (worldX y1 - worldX p1) * cos (th * pi / 180)
                           - (worldY y1 - worldY p1) * sin (th * pi / 180)"
        "worldY y2 = worldY p1 + (worldX y1 - worldX p1) * sin (th * pi / 180)
                           + (worldY y1 - worldY p1) * cos (th * pi / 180)"
        "worldRotation y2 = worldRotation y1 + th" by blast
    from step.hyps(2) obtain yb where yb: "?s y = Some yb" "z \<in> set (children yb)"
      by (auto simp: child_rel_def)
    from wf_childD[OF wb yb] obtain z0 where z0: "?s z = Some z0" "parent z0 = Some y" by blast
    from both[OF z0(1)] z0(2) obtain z1 z2 where
      z: "s1 z = Some z1" "s2 z = Some z2" "parent z1 = Some y" "parent z2 = Some y" by auto
    have Pz: "(P, z) \<in> ?R\<^sup>+" using step.hyps(1,2) by (rule rtrancl_into_trancl1)
    have zr: "z \<in> reachable sk"
      using reachable_closed[OF P] step.hyps by (meson rtrancl_into_rtrancl)
    from Pz not_own_descendant[OF wb lev] have "z \<noteq> P" by auto
    with loc z have l: "localTransform z2 = localTransform z1" by blast
    note w1 = world_okD_child[OF ok1[rule_format, OF zr] z(1,3) y(1)]
    note w2 = world_okD_child[OF ok2[rule_format, OF zr] z(2,4) y(2)]
    note rc = rot_compose[OF y(3,4), of "tr_x (localTransform z1)" "worldRotation y1 * pi / 180"
        "tr_y (localTransform z1)"]
    have "worldX z2 = worldX p1 + (worldX z1 - worldX p1) * cos (th * pi / 180)
                           - (worldY z1 - worldY p1) * sin (th * pi / 180)"
      using w1 w2 rc(1) by (simp add: l y(5) deg_add)
    moreover have "worldY z2 = worldY p1 + (worldX z1 - worldX p1) * sin (th * pi / 180)
                           + (worldY z1 - worldY p1) * cos (th * pi / 180)"
      using w1 w2 rc(2) by (simp add: l y(5) deg_add)
    moreover have "worldRotation z2 = worldRotation z1 + th"
      using w1 w2 by (simp add: l y(5))
    ultimately show ?case using z by blast
  qed
  with p(1) show ?thesis by blast
qed

lemma frame_local:
  "frame s' = frame s \<Longrightarrow> s n = Some b \<Longrightarrow> s' n = Some b' \<Longrightarrow> localTransform b' = localTransform b"
  using frame_eqD[of s' s n b] by auto

lemma hier_rotateBone: "hier (bones (rotateBone P th sk)) = hier (bones sk)"
  by (rule ext) (simp add: rotateBone_def hier_def addLocalRotation_def split: option.splits)

lemma rootBones_rotateBone: "rootBones (rotateBone P th sk) = rootBones sk"
  by (simp add: rotateBone_def split: option.splits)

lemma rotateBone_other: "m \<noteq> P \<Longrightarrow> bones (rotateBone P th sk) m = bones sk m"
  by (simp add: rotateBone_def split: option.splits)

lemma rotateBone_self:
  "bones sk P = Some b \<Longrightarrow> bones (rotateBone P th sk) P = Some (addLocalRotation th b)"
  by (simp add: rotateBone_def)

lemma wf_rotateBone: "wf_skeleton sk \<Longrightarrow> wf_skeleton (rotateBone P th sk)"
proof -
  assume wf: "wf_skeleton sk"
  have "wf_skeleton (sk\<lparr> bones := bones (rotateBone P th sk) \<rparr>)"
    using wf hier_rotateBone by (rule wf_skeleton_bones_upd)
  moreover have "sk\<lparr> bones := bones (rotateBone P th sk) \<rparr> = rotateBone P th sk"
    by (simp add: rotateBone_def split: option.splits)
  ultimately show ?thesis by simp
qed

lemma reachable_rotateBone: "reachable (rotateBone P th sk) = reachable sk"
  using subtree_hier[OF hier_rotateBone, of P th sk]
  by (simp add: reachable_def rootBones_rotateBone)

text \<open>
  Where \<open>updateTransforms\<close> reaches the bone \<open>P\<close> (a root bone or a descendant of one), the
  rotation propagates: for every descendant \<open>D\<close> of \<open>P\<close> and every angle \<open>th\<close> in degrees,
  compared with recomputing the transforms of the skeleton as it is, adding \<open>th\<close> to the
  local rotation of \<open>P\<close> and recomputing turns the world position of \<open>D\<close> by \<open>th\<close> about the
  world position of \<open>P\<close>, adds \<open>th\<close> to the world rotation of \<open>D\<close>, and leaves the local
  transform of \<open>D\<close> as it was.
\<close>

lemma rotate_reached_bone:
  assumes "wf_skeleton sk" and "card (dom (bones sk)) \<le> depth"
    and "P \<in> reachable sk" and "D \<in> descendants (bones sk) P"
  shows "\<exists>sk1 sk2 p1 d0 d1 d2.
     updateTransforms depth sk = Some sk1 \<and>
     updateTransforms depth (rotateBone P th sk) = Some sk2 \<and>
     bones sk1 P = Some p1 \<and> bones sk D = Some d0 \<and> bones sk1 D = Some d1 \<and> bones sk2 D = Some d2 \<and>
     worldX d2 = worldX p1 + (worldX d1 - worldX p1) * cos (th * pi / 180)
                           - (worldY d1 - worldY p1) * sin (th * pi / 180) \<and>
     worldY d2 = worldY p1 + (worldX d1 - worldX p1) * sin (th * pi / 180)
                           + (worldY d1 - worldY p1) * cos (th * pi / 180) \<and>
     worldRotation d2 = worldRotation d1 + th \<and>
     localTransform d2 = localTransform d0"
proof -
  let ?s = "bones sk"
  let ?sk' = "rotateBone P th sk"
  note wf = assms(1)
  from wf have wb: "wf_bones ?s" by (simp add: wf_skeleton_def)
  from updateTransforms_effect[OF wf assms(2)] obtain sk1 where
    sk1: "updateTransforms depth sk = Some sk1" and f1: "frame (bones sk1) = frame ?s"
    and ok1: "\<forall>m\<in>reachable sk. world_ok (bones sk1) m" by blast
  have "card (dom (bones ?sk')) \<le> depth" using assms(2) hier_dom[OF hier_rotateBone, of P th sk] by simp
  from updateTransforms_effect[OF wf_rotateBone[OF wf] this] obtain sk2 where
    sk2: "updateTransforms depth ?sk' = Some sk2" and f2: "frame (bones sk2) = frame (bones ?sk')"
    and ok2: "\<forall>m\<in>reachable sk. world_ok (bones sk2) m"
    unfolding reachable_rotateBone by blast
  have h1: "hier (bones sk1) = hier ?s" using f1 by (rule frame_hier)
  have h2: "hier (bones sk2) = hier ?s" using frame_hier[OF f2] hier_rotateBone[of P th sk] by simp
  have loc: "\<forall>m b1 b2. m \<noteq> P \<and> bones sk1 m = Some b1 \<and> bones sk2 m = Some b2
      \<longrightarrow> localTransform b2 = localTransform b1"
  proof (intro allI impI)
    fix m b1 b2 assume a: "m \<noteq> P \<and> bones sk1 m = Some b1 \<and> bones sk2 m = Some b2"
    from hier_eqD[OF h1[symmetric], of m b1] a obtain b0 where b0: "?s m = Some b0" by blast
    with a have "bones ?sk' m = Some b0" by (simp add: rotateBone_other)
    from frame_local[OF f2 this, of b2] frame_local[OF f1 b0, of b1] a
    show "localTransform b2 = localTransform b1" by simp
  qed
  have locP: "\<forall>b1 b2. bones sk1 P = Some b1 \<and> bones sk2 P = Some b2 \<longrightarrow>
        tr_x (localTransform b2) = tr_x (localTransform b1) \<and> tr_y (localTransform b2) = tr_y (localTransform b1)
        \<and> rotation (localTransform b2) = rotation (localTransform b1) + th"
  proof (intro allI impI)
    fix b1 b2 assume a: "bones sk1 P = Some b1 \<and> bones sk2 P = Some b2"
    from hier_eqD[OF h1[symmetric], of P b1] a obtain b0 where b0: "?s P = Some b0" by blast
    from frame_local[OF f2 rotateBone_self[OF b0], of b2] frame_local[OF f1 b0, of b1] a
    show "tr_x (localTransform b2) = tr_x (localTransform b1) \<and> tr_y (localTransform b2) = tr_y (localTransform b1)
        \<and> rotation (localTransform b2) = rotation (localTransform b1) + th"
      by (simp add: addLocalRotation_def)
  qed
  from assms(4) have PD: "(P, D) \<in> (child_rel ?s)\<^sup>+" by (simp add: descendants_def)
  then have PDs: "(P, D) \<in> (child_rel ?s)\<^sup>*" by (rule trancl_into_rtrancl)
  from rotated_worlds[OF wf h1 h2 ok1 ok2 loc locP assms(3) PDs] obtain p1 d1 d2 where
    r: "bones sk1 P = Some p1" "bones sk1 D = Some d1" "bones sk2 D = Some d2"
      "worldX d2 = worldX p1 + (worldX d1 - worldX p1) * cos (th * pi / 180)
                           - (worldY d1 - worldY p1) * sin (th * pi / 180)"
      "worldY d2 = worldY p1 + (worldX d1 - worldX p1) * sin (th * pi / 180)
                           + (worldY d1 - worldY p1) * cos (th * pi / 180)"
      "worldRotation d2 = worldRotation d1 + th" by blast
  from hier_eqD[OF h1[symmetric] r(2)] obtain d0 where d0: "?s D = Some d0" by blast
  from reachable_level[OF wf assms(3)] obtain k where "level ?s P k" ..
  from not_own_descendant[OF wb this] PD have "D \<noteq> P" by auto
  with loc r(2,3) have "localTransform d2 = localTransform d1" by blast
  with frame_local[OF f1 d0 r(2)] have "localTransform d2 = localTransform d0" by simp
  with sk1 sk2 r d0 show ?thesis by blast
qed

lemma sample_reachable: "reachable sampleSkeleton \<subseteq> {''spine'', ''arm'', ''hand''}"
proof -
  have "(a, b) \<in> (child_rel sampleBones)\<^sup>* \<Longrightarrow> a \<in> {''spine'', ''arm'', ''hand''}
        \<Longrightarrow> b \<in> {''spine'', ''arm'', ''hand''}" for a b
    by (induction rule: rtrancl_induct)
       (auto simp: child_rel_def sample_lookup spineBone_def armBone_def handBone_def)
  then show ?thesis by (auto simp: reachable_def subtree_def sampleSkeleton_def)
qed

text \<open>On the sample skeleton, turning \<open>arm\<close> by 90 degrees: \<open>hand\<close> moves a quarter turn
  about the world position of \<open>arm\<close>.\<close>

lemma rotate_reached_bone_sample:
  "wf_skeleton sampleSkeleton \<and> card (dom (bones sampleSkeleton)) \<le> 5 \<and>
   ''arm'' \<in> reachable sampleSkeleton \<and> ''hand'' \<in> descendants (bones sampleSkeleton) ''arm'' \<and>
   (\<exists>sk1 sk2 p1 d1 d2.
      updateTransforms 5 sampleSkeleton = Some sk1 \<and>
      updateTransforms 5 (rotateBone ''arm'' 90 sampleSkeleton) = Some sk2 \<and>
      bones sk1 ''arm'' = Some p1 \<and> bones sk1 ''hand'' = Some d1 \<and> bones sk2 ''hand'' = Some d2 \<and>
      worldX d2 = worldX p1 - (worldY d1 - worldY p1) \<and>
      worldY d2 = worldY p1 + (worldX d1 - worldX p1) \<and>
      worldRotation d2 = worldRotation d1 + 90 \<and>
      localTransform d2 = localTransform handBone)"
proof -
  have c: "card (dom (bones sampleSkeleton)) \<le> 5" by (simp add: sampleSkeleton_def sample_card)
  have r: "''arm'' \<in> reachable sampleSkeleton"
    using sample_child_rel(1) by (auto simp: reachable_def subtree_def sampleSkeleton_def)
  have d: "''hand'' \<in> descendants (bones sampleSkeleton) ''arm''"
    using sample_child_rel(2) by (auto simp: descendants_def sampleSkeleton_def)
  from rotate_reached_bone[OF sample_wf c r d, of 90]
  obtain sk1 sk2 p1 d0 d1 d2 where
    "updateTransforms 5 sampleSkeleton = Some sk1"
    "updateTransforms 5 (rotateBone ''arm'' 90 sampleSkeleton) = Some sk2"
    "bones sk1 ''arm'' = Some p1" "bones sampleSkeleton ''hand'' = Some d0"
    "bones sk1 ''hand'' = Some d1" "bones sk2 ''hand'' = Some d2"
    "worldX d2 = worldX p1 - (worldY d1 - worldY p1)"
    "worldY d2 = worldY p1 + (worldX d1 - worldX p1)"
    "worldRotation d2 = worldRotation d1 + 90"
    "localTransform d2 = localTransform d0"
    by auto
  moreover from this(4) have "d0 = handBone" by (simp add: sampleSkeleton_def sample_lookup)
  ultimately show ?thesis using sample_wf c r d by blast
qed

text \<open>
  \<open>Bone.updateWorldTransform\<close> takes a bone without parent to be a root. In a skeleton
  whose \<open>rootBones\<close> hold every bone without parent, \<open>updateTransforms\<close> reaches every bone
  whose parent chain ends.
\<close>

lemma level_reachable:
  assumes wf: "wf_skeleton sk"
    and roots: "\<forall>n b. bones sk n = Some b \<and> parent b = None \<longrightarrow> n \<in> set (rootBones sk)"
    and lv: "level (bones sk) n k"
  shows "n \<in> reachable sk"
  using lv
proof (induction "bones sk" n k rule: level.induct)
  case (level_root n b)
  with roots have "n \<in> set (rootBones sk)" by blast
  then show ?case by (auto simp: reachable_def subtree_def)
next
  case (level_child n b p k)
  from wf have "wf_bones (bones sk)" by (simp add: wf_skeleton_def)
  from wf_parentD[OF this level_child(1,2)] obtain pb where
    "bones sk p = Some pb" "n \<in> set (children pb)" by blast
  then have "(p, n) \<in> child_rel (bones sk)" by (auto simp: child_rel_def)
  then have "(p, n) \<in> (child_rel (bones sk))\<^sup>*" by (rule r_into_rtrancl)
  with level_child(4) show ?case by (rule reachable_closed)
qed

text \<open>In such a skeleton the rotation of every bone whose parent chain ends propagates to
  all its descendants.\<close>

lemma rotate_rooted_bone:
  assumes "wf_skeleton sk" and "card (dom (bones sk)) \<le> depth"
    and "\<forall>n b. bones sk n = Some b \<and> parent b = None \<longrightarrow> n \<in> set (rootBones sk)"
    and "level (bones sk) P k" and "D \<in> descendants (bones sk) P"
  shows "\<exists>sk1 sk2 p1 d0 d1 d2.
     updateTransforms depth sk = Some sk1 \<and>
     updateTransforms depth (rotateBone P th sk) = Some sk2 \<and>
     bones sk1 P = Some p1 \<and> bones sk D = Some d0 \<and> bones sk1 D = Some d1 \<and> bones sk2 D = Some d2 \<and>
     worldX d2 = worldX p1 + (worldX d1 - worldX p1) * cos (th * pi / 180)
                           - (worldY d1 - worldY p1) * sin (th * pi / 180) \<and>
     worldY d2 = worldY p1 + (worldX d1 - worldX p1) * sin (th * pi / 180)
                           + (worldY d1 - worldY p1) * cos (th * pi / 180) \<and>
     worldRotation d2 = worldRotation d1 + th \<and>
     localTransform d2 = localTransform d0"
  using rotate_reached_bone[OF assms(1,2) level_reachable[OF assms(1,3,4)] assms(5)] .

text \<open>\<open>loadFromData\<close> builds the sample skeleton from the sample data: \<open>limb\<close>, whose
  \<open>parentName\<close> names no bone, is left without parent and outside \<open>rootBones\<close>.\<close>

lemma sample_loadFromData: "loadFromData sampleData = sampleSkeleton"
proof -
  have c: "foldl (\<lambda>m d. AList.update (bd_name d) d m) [] sampleData
      = map (\<lambda>d. (bd_name d, d)) sampleData"
    by (simp add: sampleData_def)
  show ?thesis
    unfolding loadFromData_def Let_def c
    by (simp add: sampleData_def linkBone_def addChild_def newBone_def sampleSkeleton_def
        sampleBones_def spineBone_def armBone_def handBone_def limbBone_def tipBone_def fun_eq_iff)
qed

text \<open>
  Claim C3 fails on the code. The sample data name, for the bone \<open>limb\<close>, a parent that is
  no bone of the data, and \<open>tip\<close> is a child of \<open>limb\<close>. \<open>loadFromData\<close> leaves \<open>limb\<close> without
  parent and does not push it to \<open>rootBones\<close>, so \<open>updateTransforms\<close>, which is to update all
  bone world transforms, visits neither \<open>limb\<close> nor \<open>tip\<close>: after it the world transform of
  \<open>tip\<close> is not the one that follows from its parent's, and adding 90 to the local
  rotation of \<open>limb\<close> and recomputing leaves \<open>tip\<close> as it was, world rotation included.
\<close>

theorem rotate_unrooted_bone:
  "loadFromData sampleData = sampleSkeleton \<and>
   bones sampleSkeleton ''limb'' = Some limbBone \<and> parent limbBone = None \<and>
   ''limb'' \<notin> set (rootBones sampleSkeleton) \<and>
   ''tip'' \<in> descendants (bones sampleSkeleton) ''limb'' \<and>
   updateTransforms 5 sampleSkeleton \<noteq> None \<and>
   updateTransforms 5 (rotateBone ''limb'' 90 sampleSkeleton) \<noteq> None \<and>
   bones (the (updateTransforms 5 sampleSkeleton)) ''tip'' = Some tipBone \<and>
   bones (the (updateTransforms 5 (rotateBone ''limb'' 90 sampleSkeleton))) ''tip'' = Some tipBone \<and>
   worldRotation tipBone \<noteq> worldRotation tipBone + 90 \<and>
   \<not> world_ok (bones (the (updateTransforms 5 sampleSkeleton))) ''tip''"
proof -
  have c: "card (dom (bones sampleSkeleton)) \<le> 5" by (simp add: sampleSkeleton_def sample_card)
  have d: "''tip'' \<in> descendants (bones sampleSkeleton) ''limb''"
    using sample_child_rel(3) by (auto simp: descendants_def sampleSkeleton_def)
  have out: "''tip'' \<notin> reachable sampleSkeleton" "''limb'' \<notin> reachable sampleSkeleton"
    using sample_reachable by auto
  from updateTransforms_effect[OF sample_wf c] out obtain sk1 where
    1: "updateTransforms 5 sampleSkeleton = Some sk1" "bones sk1 ''tip'' = bones sampleSkeleton ''tip''"
      "bones sk1 ''limb'' = bones sampleSkeleton ''limb''"
    by blast
  let ?sk' = "rotateBone ''limb'' 90 sampleSkeleton"
  have c': "card (dom (bones ?sk')) \<le> 5"
    using c hier_dom[OF hier_rotateBone, of "''limb''" 90 sampleSkeleton] by simp
  have out': "''tip'' \<notin> reachable ?sk'" using out by (simp add: reachable_rotateBone)
  from updateTransforms_effect[OF wf_rotateBone[OF sample_wf] c'] out' obtain sk2 where
    2: "updateTransforms 5 ?sk' = Some sk2" "bones sk2 ''tip'' = bones ?sk' ''tip''"
    by blast
  have 3: "bones ?sk' ''tip'' = Some tipBone"
    by (simp add: rotateBone_other sampleSkeleton_def sample_lookup)
  have 4: "\<not> world_ok (bones sk1) ''tip''"
    using 1(2,3)
    by (simp add: world_ok_def sampleSkeleton_def sample_lookup tipBone_def limbBone_def)
  have 5: "bones sampleSkeleton ''limb'' = Some limbBone" "parent limbBone = None"
    "''limb'' \<notin> set (rootBones sampleSkeleton)"
    by (simp_all add: sampleSkeleton_def sample_lookup limbBone_def)
  from 1 2 3 4 5 d sample_loadFromData show ?thesis by (simp add: sampleSkeleton_def sample_lookup)
qed

end
